theory Spec2Isabelle
  imports Main
begin

section \<open>The references dataset reader (parsli/dataset_readers/references.py)\<close>

text \<open>
  The reader turns every sentence of a court decision into a token sequence and a tag
  sequence: a span of tokens whose texts, joined without separator, spell one of the
  record's references is tagged \<open>B I ... I\<close>, everything else \<open>O\<close>.

  A Python \<open>str\<close> is a sequence of Unicode code points, so it is modelled as a list of
  code points (natural numbers); the separator \<open>U+FF1B\<close> (fullwidth semicolon) is one
  element of such a list, as it is one character for \<open>strip\<close> and \<open>split\<close>.
\<close>

subsection \<open>Strings\<close>

type_synonym ustr = "nat list"

definition of_ascii :: "string \<Rightarrow> ustr" where
  "of_ascii s = map of_char s"

definition SEP :: nat where
  \<comment> \<open>the fullwidth semicolon of line 118\<close>
  "SEP = 0xFF1B"

definition BAR :: nat where
  \<comment> \<open>the vertical bar of line 118\<close>
  "BAR = 0x7C"

text \<open>\<open>s.strip(chars)\<close>: leading and trailing characters that occur in \<open>chars\<close> go.\<close>

definition py_strip :: "ustr \<Rightarrow> ustr \<Rightarrow> ustr" where
  "py_strip chars s =
     rev (dropWhile (\<lambda>c. c \<in> set chars) (rev (dropWhile (\<lambda>c. c \<in> set chars) s)))"

text \<open>\<open>s.replace(c, "")\<close> for a one-character \<open>c\<close>: every occurrence of \<open>c\<close> goes.\<close>

definition py_remove :: "nat \<Rightarrow> ustr \<Rightarrow> ustr" where
  "py_remove c s = filter (\<lambda>x. x \<noteq> c) s"

text \<open>
  \<open>s.split(c)\<close> for a one-character separator \<open>c\<close>: the pieces between the
  occurrences of \<open>c\<close>, empty pieces included; the empty string gives one empty piece.
\<close>

fun py_split :: "nat \<Rightarrow> ustr \<Rightarrow> ustr list" where
  "py_split c [] = [[]]"
| "py_split c (x # xs) =
     (if x = c then [] # py_split c xs
      else (case py_split c xs of [] \<Rightarrow> [[x]] | w # ws \<Rightarrow> (x # w) # ws))"

text \<open>\<open>sep.join(parts)\<close>, used to state what \<open>py_split\<close> does.\<close>

fun py_join :: "ustr \<Rightarrow> ustr list \<Rightarrow> ustr" where
  "py_join sep [] = []"
| "py_join sep [p] = p"
| "py_join sep (p # q # ps) = p @ sep @ py_join sep (q # ps)"

subsection \<open>Data\<close>

text \<open>
  A cell of the \<open>references_all\<close> column as pandas hands it over: a string, or the
  float \<open>nan\<close> where the cell is empty. \<open>str\<close> of a string is the string; \<open>str\<close> of
  the float \<open>nan\<close> is the three letters \<open>nan\<close>.
\<close>

datatype cell = Str ustr | NaN

fun py_str :: "cell \<Rightarrow> ustr" where
  "py_str (Str s) = s"
| "py_str NaN = of_ascii ''nan''"

record row =
  references_all :: cell
  full_text :: ustr

text \<open>A token of the tokenizer; only its text is read by the reader.\<close>

record token =
  tok_text :: ustr
  tok_idx :: "nat option"

text \<open>
  The tags are the Python strings \<open>"O"\<close>, \<open>"B"\<close>, \<open>"I"\<close>, and after recoding also
  \<open>"L"\<close> and \<open>"U"\<close>.
\<close>

datatype tag = TagO | TagB | TagI | TagL | TagU

fun tag_str :: "tag \<Rightarrow> ustr" where
  "tag_str TagO = of_ascii ''O''"
| "tag_str TagB = of_ascii ''B''"
| "tag_str TagI = of_ascii ''I''"
| "tag_str TagL = of_ascii ''L''"
| "tag_str TagU = of_ascii ''U''"

text \<open>
  The exceptions: those the reader and the recoding raise themselves, and
  \<open>LibraryError\<close> for any other exception that a call into a library raises.
\<close>

datatype error =
    ConfigurationError ustr
  | IndexError
  | InvalidTagSequence "tag list"
  | LibraryError ustr

datatype token_indexer = SingleIdTokenIndexer | OtherTokenIndexer nat

record Instance =
  inst_tokens :: "token list"
  inst_token_indexers :: "(ustr \<times> token_indexer) list"
  inst_words :: "ustr list"
  inst_tags :: "tag list"
  inst_label_namespace :: ustr

record reader =
  token_indexers :: "(ustr \<times> token_indexer) list"
  coding_scheme :: ustr
  label_namespace :: ustr
  original_coding_scheme :: ustr
  spacy_model :: ustr
  tokenizer :: "ustr \<Rightarrow> token list"
  sentence_segmenter :: "ustr \<Rightarrow> ustr list"

subsection \<open>The libraries\<close>

text \<open>
  The keyword arguments that \<open>__init__\<close> hands on to the constructor of the base class.
\<close>

datatype pyval = PyNone | PyBool bool | PyInt int | PyStr ustr

type_synonym kwargs = "(ustr \<times> pyval) list"

text \<open>
  The calls into libraries whose code is outside the repository, each with its outcome:
  \<open>super().__init__(**kwargs)\<close> returns or raises; \<open>SpacyTokenizer(model)\<close> and
  \<open>SpacySentenceSplitter(model)\<close> return the tokenizer and the splitter or raise;
  \<open>cached_path(file_path)\<close> returns the local path or raises (a file that is
  missing); \<open>read_csv(path)\<close> returns the table or raises.
\<close>

record library =
  base_init :: "kwargs \<Rightarrow> error option"
  spacy_tokenizer :: "ustr \<Rightarrow> error + (ustr \<Rightarrow> token list)"
  spacy_sentence_splitter :: "ustr \<Rightarrow> error + (ustr \<Rightarrow> ustr list)"
  cached_path :: "ustr \<Rightarrow> error + ustr"
  read_csv :: "ustr \<Rightarrow> error + row list"

subsection \<open>The constructor\<close>

text \<open>
  The calls that the constructor and \<open>_read\<close> make to the outside world, in order; a
  call that raises is recorded and is the last one.
\<close>

datatype event =
    SuperInit
  | LoadTokenizer ustr
  | LoadSentenceSplitter ustr
  | CachedPath ustr
  | LogInfo ustr
  | ReadCsv ustr

text \<open>\<open>"{}".format(x)\<close> for an optional string.\<close>

fun py_format :: "ustr option \<Rightarrow> ustr" where
  "py_format None = of_ascii ''None''"
| "py_format (Some s) = s"

text \<open>
  \<open>__init__\<close> (lines 86 to 107), in the order of the source: the constructor of the
  base class with the keyword arguments (line 95), whose exception, if any, leaves the
  constructor; the token indexers, where \<open>token_indexers or default\<close> takes the default
  for \<open>None\<close> and for the empty dictionary; the check of the coding scheme (lines 97 to
  100); the fields; the two loads of the spaCy pipeline (lines 106 and 107), each of
  which may raise.
\<close>

definition init ::
  "library \<Rightarrow> (ustr \<times> token_indexer) list option \<Rightarrow> ustr option \<Rightarrow> ustr \<Rightarrow> kwargs \<Rightarrow>
   event list \<times> (error + reader)" where
  "init lib tis cs ns kw =
     (case base_init lib kw of
        Some e \<Rightarrow> ([SuperInit], Inl e)
      | None \<Rightarrow>
         (let indexers = (case tis of
                            None \<Rightarrow> [(of_ascii ''tokens'', SingleIdTokenIndexer)]
                          | Some d \<Rightarrow> if d = [] then [(of_ascii ''tokens'', SingleIdTokenIndexer)]
                                      else d)
          in if cs \<noteq> Some (of_ascii ''IOB1'') \<and> cs \<noteq> Some (of_ascii ''BIOUL'')
             then ([SuperInit],
                   Inl (ConfigurationError (of_ascii ''unknown coding_scheme: '' @ py_format cs)))
             else (let model = of_ascii ''zh_core_web_sm'' in
                   case spacy_tokenizer lib model of
                     Inl e \<Rightarrow> ([SuperInit, LoadTokenizer model], Inl e)
                   | Inr tk \<Rightarrow>
                       (case spacy_sentence_splitter lib model of
                          Inl e \<Rightarrow>
                            ([SuperInit, LoadTokenizer model, LoadSentenceSplitter model], Inl e)
                        | Inr sp \<Rightarrow>
                            ([SuperInit, LoadTokenizer model, LoadSentenceSplitter model],
                             Inr \<lparr> token_indexers = indexers,
                                   coding_scheme = the cs,
                                   label_namespace = ns,
                                   original_coding_scheme = of_ascii ''IOB1'',
                                   spacy_model = model,
                                   tokenizer = tk,
                                   sentence_segmenter = sp \<rparr>)))))"

subsection \<open>The reference list of a record (line 118)\<close>

definition read_refs :: "cell \<Rightarrow> ustr list" where
  "read_refs c = py_split SEP (py_remove BAR (py_strip [SEP] (py_str c)))"

subsection \<open>The labelling loop (lines 121 to 126)\<close>

text \<open>A \<open>for\<close> loop over a list whose body may raise.\<close>

fun for_each :: "'a list \<Rightarrow> ('a \<Rightarrow> 's \<Rightarrow> error + 's) \<Rightarrow> 's \<Rightarrow> error + 's" where
  "for_each [] body s = Inr s"
| "for_each (x # xs) body s =
     (case body x s of Inl e \<Rightarrow> Inl e | Inr s' \<Rightarrow> for_each xs body s')"

text \<open>\<open>xs[a:b]\<close> for indices that are not negative.\<close>

definition get_slice :: "'a list \<Rightarrow> nat \<Rightarrow> nat \<Rightarrow> 'a list" where
  "get_slice xs a b = take (b - a) (drop a xs)"

text \<open>\<open>xs[i] = v\<close>: raises \<open>IndexError\<close> out of range.\<close>

definition set_item :: "'a list \<Rightarrow> nat \<Rightarrow> 'a \<Rightarrow> error + 'a list" where
  "set_item xs i v = (if i < length xs then Inr (xs[i := v]) else Inl IndexError)"

text \<open>
  \<open>xs[a:b] = ys\<close> for indices that are not negative: the slice \<open>xs[a:max(a,b)]\<close>,
  clipped to the list, is replaced by \<open>ys\<close>, whatever the length of \<open>ys\<close>.
\<close>

definition set_slice :: "'a list \<Rightarrow> nat \<Rightarrow> nat \<Rightarrow> 'a list \<Rightarrow> 'a list" where
  "set_slice xs a b ys = take a xs @ ys @ drop (max a b) xs"

text \<open>\<open>"".join(token.text for token in tokens)\<close>\<close>

definition join_text :: "token list \<Rightarrow> ustr" where
  "join_text toks = concat (map tok_text toks)"

text \<open>The body of the inner loop (lines 124 to 126).\<close>

definition label_span :: "token list \<Rightarrow> ustr list \<Rightarrow> nat \<Rightarrow> nat \<Rightarrow> tag list \<Rightarrow> error + tag list" where
  "label_span tokens refs i j tags =
     (if join_text (get_slice tokens i j) \<in> set refs
      then (case set_item tags i TagB of
              Inl e \<Rightarrow> Inl e
            | Inr tags' \<Rightarrow> Inr (set_slice tags' (i + 1) j (replicate (j - i - 1) TagI)))
      else Inr tags)"

definition label_tags :: "token list \<Rightarrow> ustr list \<Rightarrow> error + tag list" where
  "label_tags tokens refs =
     for_each [0 ..< length tokens]
       (\<lambda>i. for_each [i + 1 ..< length tokens + 1] (label_span tokens refs i))
       (map (\<lambda>_. TagO) tokens)"

subsection \<open>Recoding and the instance (lines 129 to 146)\<close>

text \<open>
  Modelled from the spec: \<open>to_bioul\<close> is imported from the allennlp library (line 12)
  and its body is not among the sources. The spec has it convert the B/I/O runs into
  the Begin/Inside/Last/Unit/Outside representation: a run of one token becomes \<open>U\<close>, a
  longer run \<open>B I ... I L\<close>. The model follows the library's loop, which keeps the
  tags of the open run on a stack and recodes the run when it ends. The tags of this
  reader carry no type suffix, so two neighbouring tags are always of the same type.
\<close>

definition process_stack :: "tag list \<Rightarrow> tag list \<Rightarrow> error + tag list" where
  "process_stack stack out =
     (if stack = [] then Inl IndexError
      else if length stack = 1 then Inr (out @ [TagU])
      else Inr (out @ [TagB] @ replicate (length stack - 2) TagI @ [TagL]))"

text \<open>
  Modelled from the spec: the loop of \<open>to_bioul\<close> over the labels, with the stack of the
  open run and the output so far. With the \<open>IOB1\<close> encoding an \<open>I\<close> may open a run; with
  \<open>BIO\<close> it may not. A label that is not \<open>O\<close>, \<open>B\<close> or \<open>I\<close> is an invalid tag sequence.
\<close>

fun to_bioul_loop :: "ustr \<Rightarrow> tag list \<Rightarrow> tag list \<Rightarrow> tag list \<Rightarrow> tag list \<Rightarrow> error + tag list" where
  "to_bioul_loop enc whole [] stack out =
     (if stack \<noteq> [] then process_stack stack out else Inr out)"
| "to_bioul_loop enc whole (label # rest) stack out =
     (if label = TagO \<and> stack = [] then to_bioul_loop enc whole rest [] (out @ [label])
      else if label = TagO then
        (case process_stack stack out of
           Inl e \<Rightarrow> Inl e
         | Inr out' \<Rightarrow> to_bioul_loop enc whole rest [] (out' @ [label]))
      else if label = TagI then
        (if stack = [] \<and> enc = of_ascii ''BIO'' then Inl (InvalidTagSequence whole)
         else to_bioul_loop enc whole rest (stack @ [label]) out)
      else if label = TagB then
        (if stack \<noteq> [] then
           (case process_stack stack out of
              Inl e \<Rightarrow> Inl e
            | Inr out' \<Rightarrow> to_bioul_loop enc whole rest [label] out')
         else to_bioul_loop enc whole rest [label] out)
      else Inl (InvalidTagSequence whole))"

text \<open>
  Modelled from the spec: \<open>to_bioul(tag_sequence, encoding)\<close>, which accepts the encodings
  \<open>IOB1\<close> and \<open>BIO\<close> only.
\<close>

definition to_bioul :: "tag list \<Rightarrow> ustr \<Rightarrow> error + tag list" where
  "to_bioul tag_sequence encoding =
     (if encoding \<noteq> of_ascii ''IOB1'' \<and> encoding \<noteq> of_ascii ''BIO''
      then Inl (ConfigurationError (of_ascii ''Invalid encoding''))
      else to_bioul_loop encoding tag_sequence tag_sequence [] [])"

text \<open>
  Modelled from the spec: the label field of allennlp is not among the sources; the
  spec (4.4) has it check that there are as many tags as tokens, and the library raises
  a configuration error otherwise.
\<close>

definition sequence_label_field :: "tag list \<Rightarrow> token list \<Rightarrow> error + tag list" where
  "sequence_label_field labels sequence =
     (if length labels \<noteq> length sequence
      then Inl (ConfigurationError (of_ascii ''Label length and sequence length do not match''))
      else Inr labels)"

text \<open>
  \<open>text_to_instance\<close> for a call that passes the tags, as \<open>_read\<close> does.
\<close>

definition text_to_instance :: "reader \<Rightarrow> token list \<Rightarrow> tag list \<Rightarrow> error + Instance" where
  "text_to_instance self tokens tags =
     (case (if coding_scheme self = of_ascii ''BIOUL''
            then to_bioul tags (original_coding_scheme self) else Inr tags) of
        Inl e \<Rightarrow> Inl e
      | Inr tags' \<Rightarrow>
          (case sequence_label_field tags' tokens of
             Inl e \<Rightarrow> Inl e
           | Inr labels \<Rightarrow>
               Inr \<lparr> inst_tokens = tokens,
                     inst_token_indexers = token_indexers self,
                     inst_words = map tok_text tokens,
                     inst_tags = labels,
                     inst_label_namespace = label_namespace self \<rparr>))"

subsection \<open>Reading a file (lines 110 to 127)\<close>

text \<open>One sentence: tokenize, label, build the instance.\<close>

definition read_sentence :: "reader \<Rightarrow> ustr list \<Rightarrow> ustr \<Rightarrow> error + Instance" where
  "read_sentence self refs sentence =
     (let tokens = tokenizer self sentence in
      case label_tags tokens refs of
        Inl e \<Rightarrow> Inl e
      | Inr tags \<Rightarrow> text_to_instance self tokens tags)"

text \<open>A list of computations that may raise, run in order up to the first error.\<close>

fun sequence_err :: "(error + 'a) list \<Rightarrow> error + 'a list" where
  "sequence_err [] = Inr []"
| "sequence_err (r # rs) =
     (case r of
        Inl e \<Rightarrow> Inl e
      | Inr x \<Rightarrow> (case sequence_err rs of Inl e \<Rightarrow> Inl e | Inr xs \<Rightarrow> Inr (x # xs)))"

text \<open>The instances of one record, in the order they are yielded.\<close>

definition read_line :: "reader \<Rightarrow> row \<Rightarrow> (error + Instance) list" where
  "read_line self line =
     (let refs = read_refs (references_all line) in
      map (read_sentence self refs) (sentence_segmenter self (full_text line)))"

definition read_rows :: "reader \<Rightarrow> row list \<Rightarrow> error + Instance list" where
  "read_rows self df = sequence_err (concat (map (read_line self) df))"

text \<open>
  \<open>_read\<close> (lines 110 to 127): \<open>cached_path\<close> first (line 112), whose exception leaves
  \<open>_read\<close> before anything is logged or read; then the log line and \<open>read_csv\<close>, both
  with the path that \<open>cached_path\<close> returned (lines 114 and 115); then the records.
  The generator yields the instances in order; the model returns them all, or the first
  error.
\<close>

definition read :: "library \<Rightarrow> reader \<Rightarrow> ustr \<Rightarrow> event list \<times> (error + Instance list)" where
  "read lib self file_path =
     (case cached_path lib file_path of
        Inl e \<Rightarrow> ([CachedPath file_path], Inl e)
      | Inr path \<Rightarrow>
          (case read_csv lib path of
             Inl e \<Rightarrow> ([CachedPath file_path, LogInfo path, ReadCsv path], Inl e)
           | Inr df \<Rightarrow>
               ([CachedPath file_path, LogInfo path, ReadCsv path], read_rows self df)))"

section \<open>Notions used to state the properties\<close>

subsection \<open>Matching spans\<close>

text \<open>
  The span \<open>tokens[i:j]\<close> matches when it is one the loop visits (\<open>i < j \<le> len(tokens)\<close>)
  and its joined text is one of the references: the condition of line 124.
\<close>

definition matches :: "token list \<Rightarrow> ustr list \<Rightarrow> nat \<Rightarrow> nat \<Rightarrow> bool" where
  "matches tokens refs i j \<longleftrightarrow>
     i < j \<and> j \<le> length tokens \<and> join_text (get_slice tokens i j) \<in> set refs"

text \<open>A matching span starts at token \<open>k\<close>; token \<open>k\<close> lies inside one, after its start.\<close>

definition starts :: "token list \<Rightarrow> ustr list \<Rightarrow> nat \<Rightarrow> bool" where
  "starts tokens refs k \<longleftrightarrow>
     (\<exists>j \<in> set [k + 1 ..< length tokens + 1]. matches tokens refs k j)"

definition inside :: "token list \<Rightarrow> ustr list \<Rightarrow> nat \<Rightarrow> bool" where
  "inside tokens refs k \<longleftrightarrow>
     (\<exists>i \<in> set [0 ..< k]. \<exists>j \<in> set [k + 1 ..< length tokens + 1]. matches tokens refs i j)"

text \<open>All matching spans of a sentence, in the order the loop visits them.\<close>

definition all_spans :: "nat \<Rightarrow> (nat \<times> nat) list" where
  "all_spans n = concat (map (\<lambda>i. map (\<lambda>j. (i, j)) [i + 1 ..< n + 1]) [0 ..< n])"

definition match_spans :: "token list \<Rightarrow> ustr list \<Rightarrow> (nat \<times> nat) list" where
  "match_spans tokens refs =
     filter (\<lambda>(i, j). join_text (get_slice tokens i j) \<in> set refs) (all_spans (length tokens))"

text \<open>
  No matching span starts strictly inside another one: any two matching spans start at
  the same token or share no token.
\<close>

definition no_match_starts_inside :: "token list \<Rightarrow> ustr list \<Rightarrow> bool" where
  "no_match_starts_inside tokens refs \<longleftrightarrow>
     list_all (\<lambda>(i, j). list_all (\<lambda>(i', j'). i = i' \<or> j \<le> i' \<or> j' \<le> i)
                 (match_spans tokens refs))
       (match_spans tokens refs)"

text \<open>
  The first position from \<open>p\<close> on, among at most \<open>d\<close>, at which \<open>stop\<close> holds, and
  the position after them if there is none.
\<close>

fun scan_end :: "(nat \<Rightarrow> bool) \<Rightarrow> nat \<Rightarrow> nat \<Rightarrow> nat" where
  "scan_end stop p 0 = p"
| "scan_end stop p (Suc d) = (if stop p then p else scan_end stop (p + 1) d)"

text \<open>
  The end of the run that begins at token \<open>k\<close>: the next token that starts a matching
  span or lies inside no matching span, and the end of the sentence if there is none.
\<close>

definition span_end :: "token list \<Rightarrow> ustr list \<Rightarrow> nat \<Rightarrow> nat" where
  "span_end tokens refs k =
     scan_end (\<lambda>p. starts tokens refs p \<or> \<not> inside tokens refs p) (k + 1)
       (length tokens - (k + 1))"

text \<open>
  Every run that begins where a matching span starts is itself a matching span.
\<close>

definition runs_match :: "token list \<Rightarrow> ustr list \<Rightarrow> bool" where
  "runs_match tokens refs \<longleftrightarrow>
     list_all (\<lambda>k. starts tokens refs k \<longrightarrow> matches tokens refs k (span_end tokens refs k))
       [0 ..< length tokens]"

text \<open>
  A maximal tagged span \<open>tags[k:m]\<close>: a \<open>B\<close> at \<open>k\<close>, then only \<open>I\<close>, and no \<open>I\<close>
  at \<open>m\<close>.
\<close>

definition maximal_span :: "tag list \<Rightarrow> nat \<Rightarrow> nat \<Rightarrow> bool" where
  "maximal_span tags k m \<longleftrightarrow>
     k < m \<and> m \<le> length tags \<and> tags ! k = TagB \<and>
     get_slice tags (k + 1) m = replicate (m - k - 1) TagI \<and>
     (m = length tags \<or> tags ! m \<noteq> TagI)"

subsection \<open>The labelling algorithm in the words of the specification\<close>

text \<open>
  One \<open>O\<close> per token; then, for every start \<open>i\<close> in ascending order and every end
  \<open>j > i\<close> in ascending order, if the texts from \<open>i\<close> to \<open>j\<close> (exclusive) joined
  without separator are a reference, tag \<open>i\<close> becomes \<open>B\<close> and the tags \<open>i+1 .. j-1\<close>
  become \<open>I\<close>; a later span overwrites what an earlier one wrote.
\<close>

definition spec_mark :: "nat \<Rightarrow> nat \<Rightarrow> tag list \<Rightarrow> tag list" where
  "spec_mark i j tags =
     map (\<lambda>k. if k = i then TagB else if i < k \<and> k < j then TagI else tags ! k)
       [0 ..< length tags]"

definition spec_label :: "ustr list \<Rightarrow> ustr list \<Rightarrow> tag list" where
  "spec_label texts refs =
     foldl (\<lambda>tags (i, j).
              if concat (take (j - i) (drop i texts)) \<in> set refs then spec_mark i j tags
              else tags)
       (replicate (length texts) TagO)
       (all_spans (length texts))"

subsection \<open>Span boundaries and the way back from BIOUL\<close>

text \<open>
  Modelled from the spec: the conversion from BIOUL back to the base scheme is not among
  the sources. BIOUL only adds the distinction of the single-token span (\<open>U\<close>) and of
  the last token of a span (\<open>L\<close>); the way back forgets it.
\<close>

fun from_bioul_tag :: "tag \<Rightarrow> tag" where
  "from_bioul_tag TagU = TagB"
| "from_bioul_tag TagL = TagI"
| "from_bioul_tag t = t"

definition from_bioul :: "tag list \<Rightarrow> tag list" where
  "from_bioul tags = map from_bioul_tag tags"

text \<open>
  Modelled from the spec: the spans of a tag sequence, as pairs of the first position and
  the position after the last. In the base scheme a span starts at a \<open>B\<close>, or at an
  \<open>I\<close> that follows \<open>O\<close> or starts the sentence, and runs over the \<open>I\<close> that follow;
  this is how the recoding reads its input. In BIOUL a span is a \<open>U\<close>, or runs from
  a \<open>B\<close> to the next \<open>L\<close>.
\<close>

definition close_span :: "nat option \<Rightarrow> nat \<Rightarrow> (nat \<times> nat) list" where
  "close_span opn pos = (case opn of None \<Rightarrow> [] | Some s \<Rightarrow> [(s, pos)])"

fun iob1_scan :: "nat \<Rightarrow> nat option \<Rightarrow> tag list \<Rightarrow> (nat \<times> nat) list" where
  "iob1_scan pos opn [] = close_span opn pos"
| "iob1_scan pos opn (t # ts) =
     (if t = TagB then close_span opn pos @ iob1_scan (pos + 1) (Some pos) ts
      else if t = TagI then
        iob1_scan (pos + 1) (case opn of None \<Rightarrow> Some pos | Some s \<Rightarrow> Some s) ts
      else close_span opn pos @ iob1_scan (pos + 1) None ts)"

definition iob1_spans :: "tag list \<Rightarrow> (nat \<times> nat) list" where
  "iob1_spans tags = iob1_scan 0 None tags"

text \<open>
  Modelled from the spec: the spans of a BIOUL sequence, a \<open>U\<close> alone or a \<open>B\<close> up to the
  next \<open>L\<close>.
\<close>

fun bioul_scan :: "nat \<Rightarrow> nat option \<Rightarrow> tag list \<Rightarrow> (nat \<times> nat) list" where
  "bioul_scan pos opn [] = []"
| "bioul_scan pos opn (t # ts) =
     (if t = TagU then (pos, pos + 1) # bioul_scan (pos + 1) None ts
      else if t = TagB then bioul_scan (pos + 1) (Some pos) ts
      else if t = TagI then bioul_scan (pos + 1) opn ts
      else if t = TagL then close_span opn (pos + 1) @ bioul_scan (pos + 1) None ts
      else bioul_scan (pos + 1) None ts)"

definition bioul_spans :: "tag list \<Rightarrow> (nat \<times> nat) list" where
  "bioul_spans tags = bioul_scan 0 None tags"

text \<open>
  A sequence of \<open>O\<close>, \<open>B\<close>, \<open>I\<close> in which every span starts with \<open>B\<close>: no \<open>I\<close> at the
  start of the sentence or after an \<open>O\<close>.
\<close>

fun wf_iob_from :: "bool \<Rightarrow> tag list \<Rightarrow> bool" where
  "wf_iob_from opn [] = True"
| "wf_iob_from opn (t # ts) =
     (if t = TagO then wf_iob_from False ts
      else if t = TagB then wf_iob_from True ts
      else if t = TagI then opn \<and> wf_iob_from True ts
      else False)"

definition wf_iob :: "tag list \<Rightarrow> bool" where
  "wf_iob tags = wf_iob_from False tags"

text \<open>
  Used in the proofs only: the sequence with every span-initial \<open>I\<close> turned into \<open>B\<close>,
  and the tags of an open run the same way.
\<close>

fun to_bio :: "bool \<Rightarrow> tag list \<Rightarrow> tag list" where
  "to_bio opn [] = []"
| "to_bio opn (t # ts) =
     (if t = TagO then TagO # to_bio False ts
      else if t = TagI \<and> opn then TagI # to_bio True ts
      else TagB # to_bio True ts)"

definition norm_stack :: "tag list \<Rightarrow> tag list" where
  "norm_stack stack = (if stack = [] then [] else TagB # replicate (length stack - 1) TagI)"

subsection \<open>Example data\<close>

text \<open>
  A tokenizer that makes one token of every character and a splitter that takes the
  whole text as one sentence stand in for the spaCy pipeline in the examples.
\<close>

definition tok :: "ustr \<Rightarrow> token" where
  "tok s = \<lparr> tok_text = s, tok_idx = None \<rparr>"

definition char_tokenizer :: "ustr \<Rightarrow> token list" where
  "char_tokenizer s = map (\<lambda>c. tok [c]) s"

definition one_sentence :: "ustr \<Rightarrow> ustr list" where
  "one_sentence s = [s]"

definition example_row :: row where
  "example_row = \<lparr> references_all = Str [98, 99], full_text = [97, 98, 99, 100] \<rparr>"

text \<open>Libraries whose calls all return.\<close>

definition example_lib :: library where
  "example_lib =
     \<lparr> base_init = (\<lambda>kw. None),
       spacy_tokenizer = (\<lambda>model. Inr char_tokenizer),
       spacy_sentence_splitter = (\<lambda>model. Inr one_sentence),
       cached_path = (\<lambda>path. Inr path),
       read_csv = (\<lambda>path. Inr [example_row]) \<rparr>"


definition example_reader :: reader where
  "example_reader =
     \<lparr> token_indexers = [(of_ascii ''tokens'', SingleIdTokenIndexer)],
       coding_scheme = of_ascii ''BIOUL'',
       label_namespace = of_ascii ''labels'',
       original_coding_scheme = of_ascii ''IOB1'',
       spacy_model = of_ascii ''zh_core_web_sm'',
       tokenizer = char_tokenizer,
       sentence_segmenter = one_sentence \<rparr>"

text \<open>
  The reference and the sentence of the example of the specification (section 8), in one
  possible tokenization: the reference is the title of the civil code in its brackets
  \<open>U+300A\<close> and \<open>U+300B\<close>.
\<close>

definition CIVIL_CODE :: ustr where
  "CIVIL_CODE = [0x300A, 0x6C11, 0x6CD5, 0x5178, 0x300B]"

definition example_sentence_tokens :: "token list" where
  "example_sentence_tokens =
     [tok [0x672C, 0x6848], tok [0x4F9D, 0x636E], tok [0x300A], tok [0x6C11, 0x6CD5, 0x5178],
      tok [0x300B], tok [0x7B2C, 0x4E00], tok [0x6761], tok [0x5224, 0x51B3], tok [0x3002]]"

section \<open>The labelling loop in closed form\<close>

lemma for_each_upt_rule:
  assumes "a \<le> b" and "P a s"
    and step: "\<And>m t. a \<le> m \<Longrightarrow> m < b \<Longrightarrow> P m t \<Longrightarrow> \<exists>t'. body m t = Inr t' \<and> P (Suc m) t'"
  shows "\<exists>t. for_each [a ..< b] body s = Inr t \<and> P b t"
  using assms
proof (induction "b - a" arbitrary: a s)
  case 0
  then show ?case by simp
next
  case (Suc d)
  then have lt: "a < b" by simp
  from Suc.prems(3)[of a s] lt Suc.prems(2) obtain t' where t': "body a s = Inr t'" "P (Suc a) t'"
    by auto
  have "\<exists>t. for_each [Suc a ..< b] body t' = Inr t \<and> P b t"
  proof (rule Suc.hyps(1))
    show "d = b - Suc a" using Suc.hyps(2) by simp
    show "Suc a \<le> b" using lt by simp
    show "P (Suc a) t'" by fact
    show "\<And>m t. Suc a \<le> m \<Longrightarrow> m < b \<Longrightarrow> P m t \<Longrightarrow> \<exists>t'. body m t = Inr t' \<and> P (Suc m) t'"
      using Suc.prems(3) by simp
  qed
  then show ?case using lt t' by (simp add: upt_conv_Cons)
qed

lemma label_span_no_match:
  "join_text (get_slice tokens i j) \<notin> set refs \<Longrightarrow> label_span tokens refs i j tags = Inr tags"
  by (simp add: label_span_def)

lemma label_span_match:
  assumes "join_text (get_slice tokens i j) \<in> set refs" "i < j" "j \<le> length tags"
  shows "\<exists>t'. label_span tokens refs i j tags = Inr t' \<and> length t' = length tags \<and>
           (\<forall>k < length tags. t' ! k = (if k = i then TagB else if i < k \<and> k < j then TagI else tags ! k))"
proof -
  let ?t = "set_slice (tags[i := TagB]) (i + 1) j (replicate (j - i - 1) TagI)"
  have eq: "label_span tokens refs i j tags = Inr ?t"
    using assms by (simp add: label_span_def set_item_def)
  have len: "length ?t = length tags"
    using assms by (simp add: set_slice_def)
  have nth: "?t ! k = (if k = i then TagB else if i < k \<and> k < j then TagI else tags ! k)"
    if "k < length tags" for k
    using that assms by (auto simp: set_slice_def nth_append max_def)
  show ?thesis using eq len nth by simp
qed

lemma starts_iff: "starts tokens refs k \<longleftrightarrow> (\<exists>j. matches tokens refs k j)"
proof
  assume "starts tokens refs k"
  then show "\<exists>j. matches tokens refs k j" unfolding starts_def by blast
next
  assume "\<exists>j. matches tokens refs k j"
  then obtain j where m: "matches tokens refs k j" ..
  then have "j \<in> set [k + 1 ..< length tokens + 1]" by (auto simp: matches_def)
  with m show "starts tokens refs k" unfolding starts_def by blast
qed

lemma inside_iff:
  "inside tokens refs k \<longleftrightarrow> (\<exists>i j. i < k \<and> k < j \<and> matches tokens refs i j)"
proof
  assume "inside tokens refs k"
  then obtain i j where "i \<in> set [0 ..< k]" "j \<in> set [k + 1 ..< length tokens + 1]"
    "matches tokens refs i j" unfolding inside_def by blast
  moreover from this have "i < k" "k < j" by auto
  ultimately show "\<exists>i j. i < k \<and> k < j \<and> matches tokens refs i j" by blast
next
  assume "\<exists>i j. i < k \<and> k < j \<and> matches tokens refs i j"
  then obtain i j where m: "i < k" "k < j" "matches tokens refs i j" by blast
  then have "i \<in> set [0 ..< k]" "j \<in> set [k + 1 ..< length tokens + 1]"
    by (auto simp: matches_def)
  with m show "inside tokens refs k" unfolding inside_def by blast
qed

lemma inner_loop:
  assumes i: "i < length tokens" and len0: "length tags0 = length tokens"
  shows "\<exists>t. for_each [i + 1 ..< length tokens + 1] (label_span tokens refs i) tags0 = Inr t \<and>
           length t = length tokens \<and>
           (\<forall>k < length tokens. t ! k =
              (if k = i then (if starts tokens refs i then TagB else tags0 ! i)
               else if i < k \<and> (\<exists>j. k < j \<and> matches tokens refs i j) then TagI
               else tags0 ! k))"
proof -
  define n where "n = length tokens"
  define P where "P m t \<longleftrightarrow> length t = n \<and>
      (\<forall>k < n. t ! k =
         (if k = i then (if \<exists>j < m. matches tokens refs i j then TagB else tags0 ! i)
          else if i < k \<and> (\<exists>j < m. k < j \<and> matches tokens refs i j) then TagI
          else tags0 ! k))" for m t
  have P0: "P (i + 1) tags0"
    unfolding P_def using len0 by (auto simp: n_def matches_def)
  have step: "\<exists>t'. label_span tokens refs i m t = Inr t' \<and> P (Suc m) t'"
    if "i + 1 \<le> m" "m < n + 1" "P m t" for m t
  proof (cases "join_text (get_slice tokens i m) \<in> set refs")
    case False
    then have nm: "\<not> matches tokens refs i m" by (simp add: matches_def)
    have "P (Suc m) t"
      using that(3) nm unfolding P_def by (auto simp: less_Suc_eq)
    then show ?thesis using False by (simp add: label_span_no_match)
  next
    case True
    then have mm: "matches tokens refs i m" using that by (simp add: matches_def n_def)
    have lt: "length t = n" using that(3) by (simp add: P_def)
    from label_span_match[OF True, of t] that lt
    obtain t' where t': "label_span tokens refs i m t = Inr t'" "length t' = n"
      "\<forall>k < n. t' ! k = (if k = i then TagB else if i < k \<and> k < m then TagI else t ! k)"
      by auto
    have "P (Suc m) t'"
      unfolding P_def
    proof (intro conjI allI impI)
      show "length t' = n" by fact
    next
      fix k assume k: "k < n"
      show "t' ! k =
         (if k = i then (if \<exists>j < Suc m. matches tokens refs i j then TagB else tags0 ! i)
          else if i < k \<and> (\<exists>j < Suc m. k < j \<and> matches tokens refs i j) then TagI
          else tags0 ! k)"
        using t'(3) k that(3) mm unfolding P_def by (auto simp: less_Suc_eq)
    qed
    then show ?thesis using t' by simp
  qed
  have "\<exists>t. for_each [i + 1 ..< n + 1] (label_span tokens refs i) tags0 = Inr t \<and> P (n + 1) t"
    by (rule for_each_upt_rule[where P = P]) (use i P0 step in \<open>auto simp: n_def\<close>)
  then obtain t where t: "for_each [i + 1 ..< n + 1] (label_span tokens refs i) tags0 = Inr t"
    and Pt: "P (n + 1) t" by blast
  have mb: "j < n + 1" if "matches tokens refs i j" for j
    using that by (simp add: matches_def n_def)
  have s: "starts tokens refs i \<longleftrightarrow> (\<exists>j < n + 1. matches tokens refs i j)"
    unfolding starts_iff using mb by blast
  have c: "(\<exists>j. k < j \<and> matches tokens refs i j) \<longleftrightarrow> (\<exists>j < n + 1. k < j \<and> matches tokens refs i j)" for k
    using mb by blast
  show ?thesis
    using t Pt unfolding P_def s c n_def[symmetric] by simp
qed

lemma label_tags_closed:
  "\<exists>tags. label_tags tokens refs = Inr tags \<and> length tags = length tokens \<and>
     (\<forall>k < length tokens. tags ! k =
        (if starts tokens refs k then TagB
         else if inside tokens refs k then TagI else TagO))"
proof -
  define n where "n = length tokens"
  define cov where "cov m k \<longleftrightarrow> (\<exists>i j. i < m \<and> i < k \<and> k < j \<and> matches tokens refs i j)" for m k
  define Q where "Q m t \<longleftrightarrow> length t = n \<and>
      (\<forall>k < n. t ! k =
         (if k < m \<and> starts tokens refs k then TagB
          else if cov m k then TagI
          else TagO))" for m t
  have Q0: "Q 0 (map (\<lambda>_. TagO) tokens)"
    by (simp add: Q_def n_def cov_def)
  have step: "\<exists>t'. for_each [i + 1 ..< length tokens + 1] (label_span tokens refs i) t = Inr t' \<and> Q (Suc i) t'"
    if "i < n" "Q i t" for i t
  proof -
    define here where "here k \<longleftrightarrow> (\<exists>j. k < j \<and> matches tokens refs i j)" for k
    have lt: "length t = length tokens" using that(2) by (simp add: Q_def n_def)
    from inner_loop[OF that(1)[unfolded n_def] lt, of refs]
    obtain t' where t': "for_each [i + 1 ..< length tokens + 1] (label_span tokens refs i) t = Inr t'"
      "length t' = n"
      "\<forall>k < n. t' ! k =
              (if k = i then (if starts tokens refs i then TagB else t ! i)
               else if i < k \<and> here k then TagI
               else t ! k)"
      unfolding n_def here_def by blast
    have cov_le: "cov (Suc i) k \<longleftrightarrow> cov i k" if "k \<le> i" for k
      unfolding cov_def using that by (meson less_Suc_eq less_le_trans not_less_eq)
    have cov_gt: "cov (Suc i) k \<longleftrightarrow> here k \<or> cov i k" if "i < k" for k
      unfolding cov_def here_def using that by (metis less_Suc_eq)
    have "Q (Suc i) t'"
      unfolding Q_def
    proof (intro conjI allI impI)
      show "length t' = n" by fact
    next
      fix k assume k: "k < n"
      have tk: "t ! k = (if k < i \<and> starts tokens refs k then TagB
          else if cov i k then TagI else TagO)"
        using that(2) k by (simp add: Q_def)
      have t'k: "t' ! k = (if k = i then (if starts tokens refs i then TagB else t ! i)
               else if i < k \<and> here k then TagI
               else t ! k)"
        using t'(3) k by simp
      consider "k < i" | "k = i" | "i < k" by linarith
      then show "t' ! k =
         (if k < Suc i \<and> starts tokens refs k then TagB
          else if cov (Suc i) k then TagI
          else TagO)"
      proof cases
        case 1
        with cov_le[of k] tk show ?thesis unfolding t'k by simp
      next
        case 2
        with cov_le[of k] tk show ?thesis unfolding t'k by simp
      next
        case 3
        with cov_gt[of k] tk show ?thesis unfolding t'k by simp
      qed
    qed
    with t' show ?thesis by blast
  qed
  have "\<exists>t. for_each [0 ..< n]
           (\<lambda>i. for_each [i + 1 ..< length tokens + 1] (label_span tokens refs i))
           (map (\<lambda>_. TagO) tokens) = Inr t \<and> Q n t"
    by (rule for_each_upt_rule[where P = Q]) (use Q0 step in auto)
  then obtain t where t: "label_tags tokens refs = Inr t" and Qt: "Q n t"
    unfolding label_tags_def n_def by blast
  have "\<forall>k < n. t ! k = (if starts tokens refs k then TagB
         else if inside tokens refs k then TagI else TagO)"
  proof (intro allI impI)
    fix k assume k: "k < n"
    have "cov n k \<longleftrightarrow> inside tokens refs k"
      unfolding inside_iff cov_def using k by (meson less_trans)
    with Qt k show "t ! k = (if starts tokens refs k then TagB
         else if inside tokens refs k then TagI else TagO)"
      by (simp add: Q_def)
  qed
  with t Qt show ?thesis unfolding Q_def n_def by blast
qed

lemma label_tags_obi:
  assumes "label_tags tokens refs = Inr tags"
  shows "set tags \<subseteq> {TagO, TagB, TagI}"
proof -
  from label_tags_closed[of tokens refs] assms
  have len: "length tags = length tokens"
    and nth: "\<forall>k < length tokens. tags ! k =
        (if starts tokens refs k then TagB else if inside tokens refs k then TagI else TagO)"
    by auto
  show ?thesis
  proof
    fix t assume "t \<in> set tags"
    then obtain k where "k < length tags" "tags ! k = t" by (auto simp: in_set_conv_nth)
    with len nth show "t \<in> {TagO, TagB, TagI}" by (auto split: if_splits)
  qed
qed

lemma label_tags_I_pred:
  assumes "label_tags tokens refs = Inr tags" "k < length tags" "tags ! k = TagI"
  shows "0 < k \<and> (tags ! (k - 1) = TagB \<or> tags ! (k - 1) = TagI)"
proof -
  from label_tags_closed[of tokens refs] assms(1)
  have len: "length tags = length tokens"
    and nth: "\<And>k. k < length tokens \<Longrightarrow> tags ! k =
        (if starts tokens refs k then TagB else if inside tokens refs k then TagI else TagO)"
    by auto
  from nth[of k] assms(2,3) len have "inside tokens refs k"
    by (auto split: if_splits)
  then obtain i j where ij: "i < k" "k < j" "matches tokens refs i j"
    unfolding inside_iff by blast
  then have k0: "0 < k" by simp
  have "starts tokens refs (k - 1) \<or> inside tokens refs (k - 1)"
  proof (cases "i = k - 1")
    case True
    with ij show ?thesis unfolding starts_iff by blast
  next
    case False
    with ij have "i < k - 1" "k - 1 < j" by simp_all
    with ij show ?thesis unfolding inside_iff by blast
  qed
  moreover have "k - 1 < length tokens" using assms(2) len by simp
  ultimately have "tags ! (k - 1) = TagB \<or> tags ! (k - 1) = TagI"
    using nth[of "k - 1"] by auto
  with k0 show ?thesis by simp
qed

lemma ascii_neq [simp]: "of_ascii ''IOB1'' \<noteq> of_ascii ''BIO''" "of_ascii ''IOB1'' \<noteq> of_ascii ''BIOUL''"
  by (simp_all add: of_ascii_def)

lemma process_stack_len:
  "stack \<noteq> [] \<Longrightarrow> \<exists>r. process_stack stack out = Inr r \<and> length r = length out + length stack"
  by (cases stack) (auto simp: process_stack_def)

lemma to_bioul_loop_len:
  assumes "set labels \<subseteq> {TagO, TagB, TagI}"
  shows "\<exists>r. to_bioul_loop (of_ascii ''IOB1'') whole labels stack out = Inr r \<and>
             length r = length out + length stack + length labels"
  using assms
proof (induction labels arbitrary: stack out)
  case Nil
  then show ?case using process_stack_len[of stack out] by auto
next
  case (Cons label rest)
  then have rest: "set rest \<subseteq> {TagO, TagB, TagI}" and l: "label \<in> {TagO, TagB, TagI}" by auto
  note IH = Cons.IH[OF rest]
  show ?case
  proof (cases "stack = []")
    case True
    then show ?thesis using l IH[of "[]" "out @ [label]"] IH[of "[label]" out] by auto
  next
    case False
    from process_stack_len[OF False, of out] obtain out' where
      o: "process_stack stack out = Inr out'" "length out' = length out + length stack" by blast
    show ?thesis
      using l False o IH[of "[]" "out' @ [label]"] IH[of "[label]" out'] IH[of "stack @ [label]" out]
      by auto
  qed
qed

lemma to_bioul_len:
  "set tags \<subseteq> {TagO, TagB, TagI} \<Longrightarrow>
   \<exists>r. to_bioul tags (of_ascii ''IOB1'') = Inr r \<and> length r = length tags"
  using to_bioul_loop_len[of tags tags "[]" "[]"] by (simp add: to_bioul_def)

lemma init_reader:
  assumes "init lib tis cs ns kw = (ev, Inr self)"
  shows "(coding_scheme self = of_ascii ''IOB1'' \<or> coding_scheme self = of_ascii ''BIOUL'') \<and>
         original_coding_scheme self = of_ascii ''IOB1'' \<and> cs = Some (coding_scheme self)"
  using assms by (auto simp: init_def Let_def split: if_splits option.splits sum.splits)

lemma text_to_instance_ok:
  assumes "original_coding_scheme self = of_ascii ''IOB1''"
    and "set tags \<subseteq> {TagO, TagB, TagI}" and "length tags = length tokens"
  shows "\<exists>inst. text_to_instance self tokens tags = Inr inst \<and> inst_tokens inst = tokens \<and>
           length (inst_tags inst) = length tokens \<and>
           (coding_scheme self \<noteq> of_ascii ''BIOUL'' \<longrightarrow> inst_tags inst = tags) \<and>
           (coding_scheme self = of_ascii ''BIOUL'' \<longrightarrow> to_bioul tags (of_ascii ''IOB1'') = Inr (inst_tags inst))"
proof (cases "coding_scheme self = of_ascii ''BIOUL''")
  case True
  from to_bioul_len[OF assms(2)] obtain r where
    r: "to_bioul tags (of_ascii ''IOB1'') = Inr r" "length r = length tags" by blast
  then show ?thesis using True assms
    by (simp add: text_to_instance_def sequence_label_field_def)
next
  case False
  then show ?thesis using assms
    by (simp add: text_to_instance_def sequence_label_field_def)
qed

lemma text_to_instance_len:
  "text_to_instance self tokens tags = Inr inst \<Longrightarrow>
   length (inst_tags inst) = length (inst_tokens inst)"
  by (auto simp: text_to_instance_def sequence_label_field_def split: if_splits sum.splits)

lemma read_sentence_ok:
  assumes "original_coding_scheme self = of_ascii ''IOB1''"
  shows "\<exists>inst. read_sentence self refs sentence = Inr inst \<and>
           length (inst_tags inst) = length (inst_tokens inst)"
proof -
  from label_tags_closed[of "tokenizer self sentence" refs] obtain tags where
    t: "label_tags (tokenizer self sentence) refs = Inr tags"
       "length tags = length (tokenizer self sentence)" by blast
  from text_to_instance_ok[OF assms label_tags_obi[OF t(1)] t(2)] t(1)
  show ?thesis by (auto simp: read_sentence_def Let_def)
qed

lemma sequence_err_all_ok:
  assumes "\<forall>r \<in> set rs. \<exists>x. r = Inr x \<and> P x"
  shows "\<exists>xs. sequence_err rs = Inr xs \<and> (\<forall>x \<in> set xs. P x) \<and> length xs = length rs"
  using assms
proof (induction rs)
  case Nil
  then show ?case by simp
next
  case (Cons r rs)
  then obtain x xs where "r = Inr x" "P x" "sequence_err rs = Inr xs" "\<forall>x \<in> set xs. P x"
    "length xs = length rs"
    by auto
  then show ?case by simp
qed

lemma read_rows_ok:
  assumes "original_coding_scheme self = of_ascii ''IOB1''"
  shows "\<exists>insts. read_rows self df = Inr insts \<and>
           (\<forall>inst \<in> set insts. length (inst_tags inst) = length (inst_tokens inst))"
proof -
  have "\<forall>r \<in> set (concat (map (read_line self) df)).
          \<exists>x. r = Inr x \<and> length (inst_tags x) = length (inst_tokens x)"
    using read_sentence_ok[OF assms] by (auto simp: read_line_def Let_def)
  from sequence_err_all_ok[OF this] show ?thesis
    unfolding read_rows_def by blast
qed

section \<open>The loop and the algorithm of the specification\<close>

lemma for_each_foldl:
  assumes "\<And>x s. x \<in> set xs \<Longrightarrow> P s \<Longrightarrow> body x s = Inr (g s x) \<and> P (g s x)" and "P s"
  shows "for_each xs body s = Inr (foldl g s xs) \<and> P (foldl g s xs)"
  using assms
proof (induction xs arbitrary: s)
  case Nil
  then show ?case by simp
next
  case (Cons x xs)
  from Cons.prems(1)[of x s] Cons.prems(2)
  have b: "body x s = Inr (g s x)" "P (g s x)" by simp_all
  have "for_each xs body (g s x) = Inr (foldl g (g s x) xs) \<and> P (foldl g (g s x) xs)"
    by (rule Cons.IH) (use Cons.prems(1) b in auto)
  with b show ?case by simp
qed

lemma foldl_concat_lists: "foldl f a (concat xss) = foldl (foldl f) a xss"
  by (induction xss arbitrary: a) simp_all

lemma join_text_slice:
  "join_text (get_slice tokens i j) = concat (take (j - i) (drop i (map tok_text tokens)))"
  by (simp add: join_text_def get_slice_def take_map drop_map)

lemma length_spec_mark [simp]: "length (spec_mark i j tags) = length tags"
  by (simp add: spec_mark_def)

lemma label_span_spec:
  assumes "i < j" "j \<le> length tags"
  shows "label_span tokens refs i j tags =
           Inr (if concat (take (j - i) (drop i (map tok_text tokens))) \<in> set refs
                then spec_mark i j tags else tags)"
proof (cases "join_text (get_slice tokens i j) \<in> set refs")
  case False
  then show ?thesis by (simp add: label_span_no_match join_text_slice[symmetric])
next
  case True
  from label_span_match[OF True assms] obtain t' where
    t': "label_span tokens refs i j tags = Inr t'" "length t' = length tags"
    "\<forall>k < length tags. t' ! k = (if k = i then TagB else if i < k \<and> k < j then TagI else tags ! k)"
    by blast
  have "t' = spec_mark i j tags"
    by (rule nth_equalityI) (use t' in \<open>simp_all add: spec_mark_def\<close>)
  with t' True show ?thesis by (simp add: join_text_slice[symmetric])
qed

lemma label_tags_spec:
  "label_tags tokens refs = Inr (spec_label (map tok_text tokens) refs)"
proof -
  define n where "n = length tokens"
  define f where "f = (\<lambda>tags (i, j).
      if concat (take (j - i) (drop i (map tok_text tokens))) \<in> set refs then spec_mark i j tags
      else tags)"
  define P where "P = (\<lambda>t :: tag list. length t = n)"
  have inner: "for_each [i + 1 ..< n + 1] (label_span tokens refs i) s =
                 Inr (foldl (\<lambda>t j. f t (i, j)) s [i + 1 ..< n + 1]) \<and>
               P (foldl (\<lambda>t j. f t (i, j)) s [i + 1 ..< n + 1])"
    if "P s" for i s
  proof (rule for_each_foldl[where P = P])
    show "P s" by fact
  next
    fix j t assume "j \<in> set [i + 1 ..< n + 1]" "P t"
    then have "i < j" "j \<le> length t" by (auto simp: P_def)
    from label_span_spec[OF this, of tokens refs] \<open>P t\<close>
    show "label_span tokens refs i j t = Inr (f t (i, j)) \<and> P (f t (i, j))"
      by (simp add: f_def P_def)
  qed
  have outer: "for_each [0 ..< n] (\<lambda>i. for_each [i + 1 ..< n + 1] (label_span tokens refs i))
                 (map (\<lambda>_. TagO) tokens) =
               Inr (foldl (\<lambda>t i. foldl (\<lambda>t j. f t (i, j)) t [i + 1 ..< n + 1])
                      (map (\<lambda>_. TagO) tokens) [0 ..< n]) \<and>
               P (foldl (\<lambda>t i. foldl (\<lambda>t j. f t (i, j)) t [i + 1 ..< n + 1])
                      (map (\<lambda>_. TagO) tokens) [0 ..< n])"
  proof (rule for_each_foldl[where P = P])
    show "P (map (\<lambda>_. TagO) tokens)" by (simp add: P_def n_def)
  next
    fix i s assume "i \<in> set [0 ..< n]" "P s"
    from inner[OF this(2), of i]
    show "for_each [i + 1 ..< n + 1] (label_span tokens refs i) s =
            Inr (foldl (\<lambda>t j. f t (i, j)) s [i + 1 ..< n + 1]) \<and>
          P (foldl (\<lambda>t j. f t (i, j)) s [i + 1 ..< n + 1])" .
  qed
  have "spec_label (map tok_text tokens) refs =
          foldl (\<lambda>t i. foldl (\<lambda>t j. f t (i, j)) t [i + 1 ..< n + 1])
             (map (\<lambda>_. TagO) tokens) [0 ..< n]"
    by (simp add: spec_label_def all_spans_def foldl_concat_lists foldl_map f_def n_def map_replicate_const
        del: upt_Suc)
  with outer show ?thesis by (simp add: label_tags_def n_def del: upt_Suc)
qed

lemma spec_label_set_refs: "set refs1 = set refs2 \<Longrightarrow> spec_label texts refs1 = spec_label texts refs2"
  by (simp add: spec_label_def)

lemma label_tags_texts:
  assumes "map tok_text toks1 = map tok_text toks2" "set refs1 = set refs2"
  shows "label_tags toks1 refs1 = label_tags toks2 refs2"
  using assms by (simp add: label_tags_spec spec_label_set_refs[of refs1 refs2])

section \<open>Matching spans\<close>

lemma in_all_spans: "(i, j) \<in> set (all_spans n) \<longleftrightarrow> i < j \<and> j \<le> n"
proof -
  have "(i, j) \<in> set (all_spans n) \<longleftrightarrow> (i, j) \<in> (\<Union>i \<in> {0 ..< n}. (\<lambda>j. (i, j)) ` {i + 1 ..< n + 1})"
    unfolding all_spans_def set_concat set_map set_upt image_image ..
  also have "\<dots> \<longleftrightarrow> i < j \<and> j \<le> n"
  proof
    assume "(i, j) \<in> (\<Union>i \<in> {0 ..< n}. (\<lambda>j. (i, j)) ` {i + 1 ..< n + 1})"
    then show "i < j \<and> j \<le> n" by auto
  next
    assume "i < j \<and> j \<le> n"
    then have "i \<in> {0 ..< n}" "(i, j) \<in> (\<lambda>j. (i, j)) ` {i + 1 ..< n + 1}" by auto
    then show "(i, j) \<in> (\<Union>i \<in> {0 ..< n}. (\<lambda>j. (i, j)) ` {i + 1 ..< n + 1})" by blast
  qed
  finally show ?thesis .
qed

lemma in_match_spans: "(i, j) \<in> set (match_spans tokens refs) \<longleftrightarrow> matches tokens refs i j"
  unfolding match_spans_def matches_def set_filter using in_all_spans[of i j "length tokens"]
  by simp

lemma maximal_span_inner:
  assumes "maximal_span tags k m" "k < p" "p < m"
  shows "tags ! p = TagI"
proof -
  from assms have m: "m \<le> length tags"
    and eq: "get_slice tags (k + 1) m = replicate (m - k - 1) TagI"
    by (simp_all add: maximal_span_def)
  have "get_slice tags (k + 1) m ! (p - (k + 1)) = tags ! p"
    using assms(2,3) m by (simp add: get_slice_def)
  moreover have "replicate (m - k - 1) TagI ! (p - (k + 1)) = TagI"
    using assms(2,3) by simp
  ultimately show ?thesis using eq by simp
qed

lemma no_match_starts_insideD:
  assumes "no_match_starts_inside tokens refs" "matches tokens refs i j" "matches tokens refs i' j'"
  shows "i = i' \<or> j \<le> i' \<or> j' \<le> i"
proof -
  from assms(2,3) have "(i, j) \<in> set (match_spans tokens refs)"
    "(i', j') \<in> set (match_spans tokens refs)" by (simp_all add: in_match_spans)
  with assms(1) show ?thesis
    unfolding no_match_starts_inside_def list_all_iff by fast
qed

lemma scan_end_props:
  "p \<le> scan_end stop p d \<and> scan_end stop p d \<le> p + d \<and>
   (\<forall>q. p \<le> q \<and> q < scan_end stop p d \<longrightarrow> \<not> stop q) \<and>
   (scan_end stop p d = p + d \<or> stop (scan_end stop p d))"
proof (induction d arbitrary: p)
  case 0
  then show ?case by auto
next
  case (Suc d)
  show ?case
  proof (cases "stop p")
    case True
    then show ?thesis by auto
  next
    case False
    from Suc[of "p + 1"] have IH: "p + 1 \<le> scan_end stop (p + 1) d"
      "scan_end stop (p + 1) d \<le> p + 1 + d"
      "\<And>q. p + 1 \<le> q \<Longrightarrow> q < scan_end stop (p + 1) d \<Longrightarrow> \<not> stop q"
      "scan_end stop (p + 1) d = p + 1 + d \<or> stop (scan_end stop (p + 1) d)"
      by auto
    have "\<not> stop q" if "p \<le> q" "q < scan_end stop (p + 1) d" for q
    proof (cases "q = p")
      case True
      with False show ?thesis by simp
    next
      case False
      with that have "p + 1 \<le> q" by simp
      with IH(3) that show ?thesis by blast
    qed
    with IH False show ?thesis by auto
  qed
qed

lemma scan_end_unique:
  assumes "p \<le> m" "m \<le> p + d" "\<And>q. p \<le> q \<Longrightarrow> q < m \<Longrightarrow> \<not> stop q" "m = p + d \<or> stop m"
  shows "scan_end stop p d = m"
proof -
  let ?e = "scan_end stop p d"
  from scan_end_props[of p stop d] have e: "p \<le> ?e" "?e \<le> p + d"
    "\<And>q. p \<le> q \<Longrightarrow> q < ?e \<Longrightarrow> \<not> stop q" "?e = p + d \<or> stop ?e"
    by auto
  show ?thesis
  proof (rule ccontr)
    assume ne: "?e \<noteq> m"
    show False
    proof (cases "?e < m")
      case True
      with assms(3)[of ?e] e(1) have "\<not> stop ?e" by simp
      moreover from True assms(2) have "?e \<noteq> p + d" by simp
      ultimately show False using e(4) by simp
    next
      case False
      with ne have lt: "m < ?e" by simp
      with e(3)[of m] assms(1) have "\<not> stop m" by simp
      moreover from lt e(2) have "m \<noteq> p + d" by simp
      ultimately show False using assms(4) by simp
    qed
  qed
qed

lemma maximal_span_iff:
  assumes t: "label_tags tokens refs = Inr tags"
  shows "maximal_span tags k m \<longleftrightarrow>
           k < length tokens \<and> starts tokens refs k \<and> m = span_end tokens refs k"
proof -
  define n where "n = length tokens"
  define stop where "stop = (\<lambda>p. starts tokens refs p \<or> \<not> inside tokens refs p)"
  from label_tags_closed[of tokens refs] t
  have len: "length tags = n"
    and nth: "\<And>p. p < n \<Longrightarrow> tags ! p =
        (if starts tokens refs p then TagB else if inside tokens refs p then TagI else TagO)"
    by (auto simp: n_def)
  have tagI: "tags ! p = TagI \<longleftrightarrow> \<not> stop p" if "p < n" for p
    using nth[OF that] by (auto simp: stop_def)
  have tagB: "tags ! p = TagB \<longleftrightarrow> starts tokens refs p" if "p < n" for p
    using nth[OF that] by auto
  have se: "span_end tokens refs k = scan_end stop (k + 1) (n - (k + 1))"
    by (simp add: span_end_def stop_def n_def)
  show ?thesis
  proof
    assume s: "maximal_span tags k m"
    then have km: "k < m" "m \<le> n" and b: "tags ! k = TagB"
      and e: "m = n \<or> tags ! m \<noteq> TagI"
      by (simp_all add: maximal_span_def len)
    from km have kn: "k < n" by simp
    have st: "starts tokens refs k" using tagB[OF kn] b by simp
    have "scan_end stop (k + 1) (n - (k + 1)) = m"
    proof (rule scan_end_unique)
      show "k + 1 \<le> m" using km by simp
      show "m \<le> k + 1 + (n - (k + 1))" using km by simp
      show "\<not> stop q" if "k + 1 \<le> q" "q < m" for q
      proof -
        from that have "tags ! q = TagI" by (intro maximal_span_inner[OF s]) simp_all
        moreover from that km have "q < n" by simp
        ultimately show ?thesis using tagI by simp
      qed
      show "m = k + 1 + (n - (k + 1)) \<or> stop m"
      proof (cases "m = n")
        case True
        with km show ?thesis by simp
      next
        case False
        with km e have "m < n" "tags ! m \<noteq> TagI" by simp_all
        with tagI show ?thesis by simp
      qed
    qed
    with kn st se show "k < length tokens \<and> starts tokens refs k \<and> m = span_end tokens refs k"
      by (simp add: n_def)
  next
    assume a: "k < length tokens \<and> starts tokens refs k \<and> m = span_end tokens refs k"
    then have kn: "k < n" and st: "starts tokens refs k"
      and m: "m = scan_end stop (k + 1) (n - (k + 1))"
      by (simp_all add: n_def se)
    from scan_end_props[of "k + 1" stop "n - (k + 1)"] m kn
    have p: "k + 1 \<le> m" "m \<le> n" "\<And>q. k + 1 \<le> q \<Longrightarrow> q < m \<Longrightarrow> \<not> stop q"
      "m = n \<or> stop m"
      by auto
    have b: "tags ! k = TagB" using tagB[OF kn] st by simp
    have sl: "get_slice tags (k + 1) m = replicate (m - k - 1) TagI"
    proof (rule nth_equalityI)
      show "length (get_slice tags (k + 1) m) = length (replicate (m - k - 1) TagI)"
        using p(1,2) len by (simp add: get_slice_def)
    next
      fix i assume "i < length (get_slice tags (k + 1) m)"
      then have i: "i < m - k - 1" using p(1,2) len by (simp add: get_slice_def)
      then have "get_slice tags (k + 1) m ! i = tags ! (k + 1 + i)"
        using p(2) len by (simp add: get_slice_def)
      also have "\<dots> = TagI"
        using tagI[of "k + 1 + i"] p(3)[of "k + 1 + i"] i p(2) by simp
      finally show "get_slice tags (k + 1) m ! i = replicate (m - k - 1) TagI ! i"
        using i by simp
    qed
    have e: "m = length tags \<or> tags ! m \<noteq> TagI"
    proof (cases "m = n")
      case True
      then show ?thesis by (simp add: len)
    next
      case False
      with p(2,4) have "m < n" "stop m" by simp_all
      with tagI show ?thesis by simp
    qed
    from p(1,2) b sl e show "maximal_span tags k m"
      by (simp add: maximal_span_def len)
  qed
qed

lemma spans_are_references_iff:
  assumes t: "label_tags tokens refs = Inr tags"
  shows "(\<forall>k m. maximal_span tags k m \<longrightarrow> join_text (get_slice tokens k m) \<in> set refs) \<longleftrightarrow>
           runs_match tokens refs"
proof -
  from label_tags_closed[of tokens refs] t
  have len: "length tags = length tokens" by auto
  have rm: "runs_match tokens refs \<longleftrightarrow>
      (\<forall>k < length tokens. starts tokens refs k \<longrightarrow> matches tokens refs k (span_end tokens refs k))"
    by (auto simp: runs_match_def list_all_iff)
  show ?thesis
  proof
    assume a: "\<forall>k m. maximal_span tags k m \<longrightarrow> join_text (get_slice tokens k m) \<in> set refs"
    show "runs_match tokens refs"
      unfolding rm
    proof (intro allI impI)
      fix k assume k: "k < length tokens" "starts tokens refs k"
      then have s: "maximal_span tags k (span_end tokens refs k)"
        using maximal_span_iff[OF t] by simp
      with a have "join_text (get_slice tokens k (span_end tokens refs k)) \<in> set refs" by blast
      moreover from s have "k < span_end tokens refs k" "span_end tokens refs k \<le> length tokens"
        by (simp_all add: maximal_span_def len)
      ultimately show "matches tokens refs k (span_end tokens refs k)"
        by (simp add: matches_def)
    qed
  next
    assume r: "runs_match tokens refs"
    show "\<forall>k m. maximal_span tags k m \<longrightarrow> join_text (get_slice tokens k m) \<in> set refs"
    proof (intro allI impI)
      fix k m assume "maximal_span tags k m"
      then have "k < length tokens" "starts tokens refs k" "m = span_end tokens refs k"
        using maximal_span_iff[OF t] by simp_all
      with r have "matches tokens refs k m" unfolding rm by blast
      then show "join_text (get_slice tokens k m) \<in> set refs" by (simp add: matches_def)
    qed
  qed
qed

lemma aligned_spans_exact:
  assumes d: "no_match_starts_inside tokens refs"
    and t: "label_tags tokens refs = Inr tags"
    and s: "maximal_span tags k m"
  shows "matches tokens refs k m"
proof -
  from label_tags_closed[of tokens refs] t
  have len: "length tags = length tokens"
    and nth: "\<And>p. p < length tokens \<Longrightarrow> tags ! p =
        (if starts tokens refs p then TagB else if inside tokens refs p then TagI else TagO)"
    by auto
  from s have km: "k < m" "m \<le> length tags" and b: "tags ! k = TagB"
    and e: "m = length tags \<or> tags ! m \<noteq> TagI"
    by (simp_all add: maximal_span_def)
  from nth[of k] b km len have "starts tokens refs k" by (auto split: if_splits)
  then obtain j0 where j0: "matches tokens refs k j0" unfolding starts_iff by blast
  define J where "J = {j. matches tokens refs k j}"
  have fin: "finite J"
  proof (rule finite_subset)
    show "J \<subseteq> {.. length tokens}" by (auto simp: J_def matches_def)
  qed simp
  have ne: "J \<noteq> {}" using j0 by (auto simp: J_def)
  define j where "j = Max J"
  have jJ: "j \<in> J" unfolding j_def using fin ne by (rule Max_in)
  then have j: "matches tokens refs k j" by (simp add: J_def)
  have jmax: "j' \<le> j" if "matches tokens refs k j'" for j'
    unfolding j_def using fin that by (intro Max_ge) (simp_all add: J_def)
  from j have kj: "k < j" "j \<le> length tokens" by (simp_all add: matches_def)
  have "j = m"
  proof (rule ccontr)
    assume neq: "j \<noteq> m"
    show False
    proof (cases "j < m")
      case True
      with kj s have "tags ! j = TagI" by (intro maximal_span_inner[of tags k m j]) simp_all
      moreover have "j < length tokens" using True km len by simp
      ultimately have "inside tokens refs j" using nth[of j] by (auto split: if_splits)
      then obtain i' j' where o: "i' < j" "j < j'" "matches tokens refs i' j'"
        unfolding inside_iff by blast
      from no_match_starts_insideD[OF d j o(3)] o kj have "k = i'" by auto
      with o jmax[of j'] show False by simp
    next
      case False
      with neq have mj: "m < j" by simp
      with kj len have ml: "m < length tokens" by simp
      with e len have ni: "tags ! m \<noteq> TagI" by simp
      have "inside tokens refs m" unfolding inside_iff using km(1) mj j by blast
      with nth[OF ml] ni have "starts tokens refs m" by (auto split: if_splits)
      then obtain j' where o: "matches tokens refs m j'" unfolding starts_iff by blast
      then have "m < j'" by (simp add: matches_def)
      with no_match_starts_insideD[OF d j o] km mj show False by auto
    qed
  qed
  with j show ?thesis by simp
qed

lemma aligned_runs_match:
  assumes "no_match_starts_inside tokens refs"
  shows "runs_match tokens refs"
proof -
  from label_tags_closed[of tokens refs] obtain tags where t: "label_tags tokens refs = Inr tags"
    by blast
  have "join_text (get_slice tokens k m) \<in> set refs" if "maximal_span tags k m" for k m
    using aligned_spans_exact[OF assms t that] by (simp add: matches_def)
  then show ?thesis using spans_are_references_iff[OF t] by blast
qed

lemma single_match_tags:
  assumes ms: "match_spans tokens refs = [(p, p + 3)]"
    and len: "length tokens = p + 3 + q"
  shows "label_tags tokens refs = Inr (replicate p TagO @ [TagB, TagI, TagI] @ replicate q TagO)"
proof -
  from label_tags_closed[of tokens refs] obtain tags where
    t: "label_tags tokens refs = Inr tags" and l: "length tags = length tokens"
    and nth: "\<And>k. k < length tokens \<Longrightarrow> tags ! k =
        (if starts tokens refs k then TagB else if inside tokens refs k then TagI else TagO)"
    by blast
  have m: "matches tokens refs i j \<longleftrightarrow> i = p \<and> j = p + 3" for i j
    using in_match_spans[of i j tokens refs] ms by simp
  have s: "starts tokens refs k \<longleftrightarrow> k = p" for k
    unfolding starts_iff m by simp
  have i: "inside tokens refs k \<longleftrightarrow> p < k \<and> k < p + 3" for k
    unfolding inside_iff m by auto
  have "tags = replicate p TagO @ [TagB, TagI, TagI] @ replicate q TagO"
  proof (rule nth_equalityI)
    show "length tags = length (replicate p TagO @ [TagB, TagI, TagI] @ replicate q TagO)"
      using l len by simp
  next
    fix k assume "k < length tags"
    then have k: "k < length tokens" using l by simp
    consider "k < p" | "k = p" | "k = p + 1" | "k = p + 2" | "p + 3 \<le> k" by linarith
    then show "tags ! k = (replicate p TagO @ [TagB, TagI, TagI] @ replicate q TagO) ! k"
    proof cases
      case 1
      then show ?thesis using nth[OF k] by (simp add: s i nth_append)
    next
      case 2
      then show ?thesis using nth[OF k] by (simp add: s i nth_append)
    next
      case 3
      then show ?thesis using nth[OF k] by (simp add: s i nth_append)
    next
      case 4
      then show ?thesis using nth[OF k] by (simp add: s i nth_append)
    next
      case 5
      then have "k - p - 3 < q" using k len by simp
      with 5 show ?thesis using nth[OF k] by (simp add: s i nth_append nth_Cons')
    qed
  qed
  with t show ?thesis by simp
qed

section \<open>The reference list\<close>

lemma py_split_not_Nil [simp]: "py_split c s \<noteq> []"
  by (induction s) (auto split: list.splits)

lemma py_join_Cons: "ps \<noteq> [] \<Longrightarrow> py_join sep (p # ps) = p @ sep @ py_join sep ps"
  by (cases ps) simp_all

lemma py_join_split: "py_join [c] (py_split c s) = s"
proof (induction s)
  case Nil
  then show ?case by simp
next
  case (Cons x xs)
  show ?case
  proof (cases "x = c")
    case True
    then show ?thesis using Cons by (simp add: py_join_Cons)
  next
    case False
    obtain w ws where w: "py_split c xs = w # ws" by (cases "py_split c xs") simp_all
    with Cons have "py_join [c] (w # ws) = xs" by simp
    then have "py_join [c] ((x # w) # ws) = x # xs" by (cases ws) simp_all
    with False w show ?thesis by simp
  qed
qed

lemma py_split_pieces: "p \<in> set (py_split c s) \<Longrightarrow> c \<notin> set p"
proof (induction s arbitrary: p)
  case Nil
  then show ?case by simp
next
  case (Cons x xs)
  then show ?case by (auto split: if_splits list.splits)
qed

lemma py_split_pieces_subset: "p \<in> set (py_split c s) \<Longrightarrow> set p \<subseteq> set s"
proof (induction s arbitrary: p)
  case Nil
  then show ?case by simp
next
  case (Cons x xs)
  then show ?case by (fastforce split: if_splits list.splits)
qed

lemma py_split_no_sep: "c \<notin> set p \<Longrightarrow> py_split c p = [p]"
  by (induction p) auto

lemma py_split_append: "c \<notin> set p \<Longrightarrow> py_split c (p @ c # s) = p # py_split c s"
  by (induction p) auto

lemma py_strip_trailing: "py_strip [c] (s @ [c]) = py_strip [c] s"
proof (cases "\<forall>x \<in> set s. x = c")
  case True
  then have a: "\<forall>x \<in> set (s @ [c]). x \<in> set [c]" "\<forall>x \<in> set s. x \<in> set [c]"
    by simp_all
  have d: "dropWhile (\<lambda>x. x \<in> set [c]) (s @ [c]) = []" "dropWhile (\<lambda>x. x \<in> set [c]) s = []"
    by (rule iffD2[OF dropWhile_eq_Nil_conv], rule a)+
  show ?thesis unfolding py_strip_def d ..
next
  case False
  then obtain x where "x \<in> set s" "\<not> x \<in> set [c]" by auto
  then have "dropWhile (\<lambda>x. x \<in> set [c]) (s @ [c]) = dropWhile (\<lambda>x. x \<in> set [c]) s @ [c]"
    by (rule dropWhile_append1)
  then show ?thesis by (simp add: py_strip_def)
qed

lemma py_strip_id:
  assumes "s \<noteq> []" "hd s \<notin> set chars" "last s \<notin> set chars"
  shows "py_strip chars s = s"
proof -
  from assms have "dropWhile (\<lambda>c. c \<in> set chars) s = s" by (cases s) simp_all
  moreover from assms have "dropWhile (\<lambda>c. c \<in> set chars) (rev s) = rev s"
    by (cases "rev s") (simp_all add: last_rev[symmetric] del: last_rev)
  ultimately show ?thesis by (simp add: py_strip_def)
qed

lemma read_refs_three:
  assumes "A \<noteq> []" "C \<noteq> []" "SEP \<notin> set (A @ B @ C)" "BAR \<notin> set (A @ B @ C)"
  shows "read_refs (Str (A @ [SEP] @ B @ [SEP] @ C)) = [A, B, C]"
proof -
  let ?s = "A @ [SEP] @ B @ [SEP] @ C"
  have ne: "SEP \<noteq> BAR" by (simp add: SEP_def BAR_def)
  have "hd ?s = hd A" "last ?s = last C" using assms(1,2) by simp_all
  moreover have "hd A \<in> set A" "last C \<in> set C" using assms(1,2) by simp_all
  ultimately have "hd ?s \<notin> set [SEP]" "last ?s \<notin> set [SEP]" using assms(3) by auto
  then have 1: "py_strip [SEP] ?s = ?s" by (intro py_strip_id) simp_all
  have 2: "py_remove BAR ?s = ?s"
    using assms(4) ne unfolding py_remove_def by (intro filter_True) auto
  have 3: "py_split SEP ?s = [A, B, C]"
    using assms(3) by (simp add: py_split_append py_split_no_sep)
  show ?thesis by (simp only: read_refs_def py_str.simps 1 2 3)
qed

lemma read_refs_civil_code: "read_refs (Str CIVIL_CODE) = [CIVIL_CODE]"
  by (simp add: read_refs_def py_strip_def py_remove_def SEP_def BAR_def CIVIL_CODE_def)

section \<open>Reading records\<close>

lemma sequence_err_append:
  "sequence_err (xs @ ys) =
     (case sequence_err xs of
        Inl e \<Rightarrow> Inl e
      | Inr a \<Rightarrow> (case sequence_err ys of Inl e \<Rightarrow> Inl e | Inr b \<Rightarrow> Inr (a @ b)))"
  by (induction xs) (auto split: sum.splits)

lemma read_rows_append:
  "read_rows self (xs @ ys) =
     (case read_rows self xs of
        Inl e \<Rightarrow> Inl e
      | Inr a \<Rightarrow> (case read_rows self ys of Inl e \<Rightarrow> Inl e | Inr b \<Rightarrow> Inr (a @ b)))"
  unfolding read_rows_def by (simp add: sequence_err_append)

lemma read_sentence_tags:
  assumes o: "original_coding_scheme self = of_ascii ''IOB1''"
    and eq: "map tok_text (tokenizer self s1) = map tok_text (tokenizer self s2)"
  shows "\<exists>i1 i2. read_sentence self refs s1 = Inr i1 \<and> read_sentence self refs s2 = Inr i2 \<and>
           inst_tags i1 = inst_tags i2"
proof -
  from label_tags_closed[of "tokenizer self s1" refs] obtain tags where
    t1: "label_tags (tokenizer self s1) refs = Inr tags" "length tags = length (tokenizer self s1)"
    by blast
  from label_tags_texts[OF eq refl, of refs] t1
  have t2: "label_tags (tokenizer self s2) refs = Inr tags" by simp
  have l2: "length tags = length (tokenizer self s2)"
    using t1(2) arg_cong[OF eq, of length] by simp
  note obi = label_tags_obi[OF t1(1)]
  from text_to_instance_ok[OF o obi t1(2)] obtain i1 where
    i1: "text_to_instance self (tokenizer self s1) tags = Inr i1"
    "coding_scheme self \<noteq> of_ascii ''BIOUL'' \<longrightarrow> inst_tags i1 = tags"
    "coding_scheme self = of_ascii ''BIOUL'' \<longrightarrow> to_bioul tags (of_ascii ''IOB1'') = Inr (inst_tags i1)"
    by blast
  from text_to_instance_ok[OF o obi l2] obtain i2 where
    i2: "text_to_instance self (tokenizer self s2) tags = Inr i2"
    "coding_scheme self \<noteq> of_ascii ''BIOUL'' \<longrightarrow> inst_tags i2 = tags"
    "coding_scheme self = of_ascii ''BIOUL'' \<longrightarrow> to_bioul tags (of_ascii ''IOB1'') = Inr (inst_tags i2)"
    by blast
  have "inst_tags i1 = inst_tags i2"
    using i1(2,3) i2(2,3) by (cases "coding_scheme self = of_ascii ''BIOUL''") simp_all
  with i1(1) i2(1) t1(1) t2 show ?thesis by (simp add: read_sentence_def Let_def)
qed

lemma example_init:
  "init example_lib None (Some (of_ascii ''BIOUL'')) (of_ascii ''labels'') [] =
     ([SuperInit, LoadTokenizer (of_ascii ''zh_core_web_sm''),
       LoadSentenceSplitter (of_ascii ''zh_core_web_sm'')], Inr example_reader)"
  by (simp add: init_def example_reader_def example_lib_def Let_def)

lemma example_row_tags:
  "map inst_tags (projr (read_rows example_reader [example_row])) = [[TagO, TagB, TagL, TagO]]"
proof -
  have r: "read_refs (Str [98, 99]) = [[98, 99]]"
    by (simp add: read_refs_def py_strip_def py_remove_def SEP_def BAR_def)
  have l: "label_tags (char_tokenizer [97, 98, 99, 100]) [[98, 99]] = Inr [TagO, TagB, TagI, TagO]"
    by code_simp
  have b: "to_bioul [TagO, TagB, TagI, TagO] (of_ascii ''IOB1'') = Inr [TagO, TagB, TagL, TagO]"
    by code_simp
  have s: "read_line example_reader example_row =
             [read_sentence example_reader [[98, 99]] [97, 98, 99, 100]]"
    by (simp add: read_line_def example_row_def r) (simp add: example_reader_def one_sentence_def)
  have k: "tokenizer example_reader = char_tokenizer"
    "coding_scheme example_reader = of_ascii ''BIOUL''"
    "original_coding_scheme example_reader = of_ascii ''IOB1''"
    by (simp_all add: example_reader_def)
  have n: "length (char_tokenizer [97, 98, 99, 100]) = 4" by (simp add: char_tokenizer_def)
  show ?thesis
    by (simp add: read_rows_def s read_sentence_def k l text_to_instance_def b
        sequence_label_field_def n Let_def)
qed

section \<open>Recoding to BIOUL\<close>

lemma from_bioul_append [simp]: "from_bioul (xs @ ys) = from_bioul xs @ from_bioul ys"
  by (simp add: from_bioul_def)

lemma from_bioul_replicate_I [simp]: "from_bioul (replicate n TagI) = replicate n TagI"
  by (simp add: from_bioul_def)

lemma process_stack_from_bioul:
  assumes "stack \<noteq> []"
  shows "\<exists>out'. process_stack stack out = Inr out' \<and>
           from_bioul out' = from_bioul out @ norm_stack stack"
proof (cases "length stack = 1")
  case True
  then show ?thesis using assms by (simp add: process_stack_def norm_stack_def from_bioul_def)
next
  case False
  from assms have "length stack \<noteq> 0" by simp
  with False obtain n where n: "length stack = Suc (Suc n)"
    by (metis One_nat_def not0_implies_Suc)
  have "replicate (length stack - 1) TagI = replicate (length stack - 2) TagI @ [TagI]"
    unfolding n by (simp add: replicate_append_same)
  then show ?thesis using assms False
    by (simp add: process_stack_def norm_stack_def) (simp add: from_bioul_def)
qed

lemma to_bioul_loop_from_bioul:
  assumes "set labels \<subseteq> {TagO, TagB, TagI}"
  shows "\<exists>r. to_bioul_loop (of_ascii ''IOB1'') whole labels stack out = Inr r \<and>
           from_bioul r = from_bioul out @ norm_stack stack @ to_bio (stack \<noteq> []) labels"
  using assms
proof (induction labels arbitrary: stack out)
  case Nil
  then show ?case using process_stack_from_bioul[of stack out] by (auto simp: norm_stack_def)
next
  case (Cons label rest)
  then have rest: "set rest \<subseteq> {TagO, TagB, TagI}" and l: "label \<in> {TagO, TagB, TagI}" by auto
  note IH = Cons.IH[OF rest]
  show ?case
  proof (cases "stack = []")
    case True
    then show ?thesis using l IH[of "[]" "out @ [label]"] IH[of "[label]" out]
      by (auto simp: norm_stack_def from_bioul_def)
  next
    case False
    from process_stack_from_bioul[OF False, of out] obtain out' where
      o: "process_stack stack out = Inr out'" "from_bioul out' = from_bioul out @ norm_stack stack"
      by blast
    have n: "norm_stack (stack @ [label]) = norm_stack stack @ [TagI]"
      using False by (simp add: norm_stack_def replicate_append_same[symmetric])
        (metis Suc_pred length_greater_0_conv replicate_Suc replicate_append_same)
    from l consider "label = TagO" | "label = TagB" | "label = TagI" by auto
    then show ?thesis
    proof cases
      case 1
      then show ?thesis using False o IH[of "[]" "out' @ [label]"]
        by (auto simp: norm_stack_def from_bioul_def)
    next
      case 2
      then show ?thesis using False o IH[of "[label]" out']
        by (auto simp: norm_stack_def from_bioul_def)
    next
      case 3
      then show ?thesis using False IH[of "stack @ [label]" out] n by auto
    qed
  qed
qed

lemma to_bio_wf: "wf_iob_from opn tags \<Longrightarrow> to_bio opn tags = tags"
  by (induction tags arbitrary: opn) (auto split: if_splits)

lemma iob1_scan_to_bio:
  "set tags \<subseteq> {TagO, TagB, TagI} \<Longrightarrow>
   iob1_scan pos opn (to_bio (opn \<noteq> None) tags) = iob1_scan pos opn tags"
proof (induction tags arbitrary: pos opn)
  case Nil
  then show ?case by simp
next
  case (Cons t ts)
  then have ts: "set ts \<subseteq> {TagO, TagB, TagI}" and t: "t \<in> {TagO, TagB, TagI}" by auto
  note IH = Cons.IH[OF ts]
  from t consider "t = TagO" | "t = TagB" | "t = TagI" by auto
  then show ?case
  proof cases
    case 1
    then show ?thesis using IH[of "pos + 1" None] by simp
  next
    case 2
    then show ?thesis using IH[of "pos + 1" "Some pos"] by simp
  next
    case 3
    show ?thesis
    proof (cases opn)
      case None
      then show ?thesis using 3 IH[of "pos + 1" "Some pos"] by (simp add: close_span_def)
    next
      case (Some s)
      then show ?thesis using 3 IH[of "pos + 1" "Some s"] by simp
    qed
  qed
qed

lemma bioul_scan_inside:
  "bioul_scan q (Some s) (replicate n TagI @ TagL # rest) =
     (s, q + n + 1) # bioul_scan (q + n + 1) None rest"
  by (induction n arbitrary: q) (simp_all add: close_span_def)

lemma process_stack_block:
  assumes "stack \<noteq> []"
  shows "\<exists>blk. process_stack stack out = Inr (out @ blk) \<and> length blk = length stack \<and>
           (\<forall>p rest. bioul_scan p None (blk @ rest) =
              (p, p + length stack) # bioul_scan (p + length stack) None rest)"
proof (cases "length stack = 1")
  case True
  then have "process_stack stack out = Inr (out @ [TagU])"
    using assms by (simp add: process_stack_def)
  moreover have "\<forall>p rest. bioul_scan p None ([TagU] @ rest) =
              (p, p + length stack) # bioul_scan (p + length stack) None rest"
    using True by simp
  ultimately show ?thesis using True by (intro exI[of _ "[TagU]"]) simp
next
  case False
  from assms have "length stack \<noteq> 0" by simp
  with False obtain n where n: "length stack = Suc (Suc n)"
    by (metis One_nat_def not0_implies_Suc)
  let ?blk = "TagB # replicate n TagI @ [TagL]"
  have "process_stack stack out = Inr (out @ ?blk)"
    using assms n by (simp add: process_stack_def)
  moreover have "\<forall>p rest. bioul_scan p None (?blk @ rest) =
              (p, p + length stack) # bioul_scan (p + length stack) None rest"
    using bioul_scan_inside[of _ _ n] by (simp add: n)
  ultimately show ?thesis using n by (intro exI[of _ ?blk]) simp
qed

lemma to_bioul_loop_spans:
  assumes "set labels \<subseteq> {TagO, TagB, TagI}"
    and "\<And>rest. bioul_scan 0 None (out @ rest) =
                  bioul_scan 0 None out @ bioul_scan (length out) None rest"
  shows "\<exists>r. to_bioul_loop (of_ascii ''IOB1'') whole labels stack out = Inr r \<and>
           bioul_scan 0 None r =
             bioul_scan 0 None out @
             iob1_scan (length out + length stack)
               (if stack = [] then None else Some (length out)) labels"
  using assms
proof (induction labels arbitrary: stack out)
  case Nil
  show ?case
  proof (cases "stack = []")
    case True
    then show ?thesis by (simp add: close_span_def)
  next
    case False
    from process_stack_block[OF False, of out] obtain blk where
      b: "process_stack stack out = Inr (out @ blk)"
      "\<And>p rest. bioul_scan p None (blk @ rest) =
              (p, p + length stack) # bioul_scan (p + length stack) None rest"
      by blast
    have "bioul_scan 0 None (out @ blk) =
            bioul_scan 0 None out @ [(length out, length out + length stack)]"
      using Nil.prems(2)[of blk] b(2)[of "length out" "[]"] by simp
    with b(1) False show ?thesis by (simp add: close_span_def)
  qed
next
  case (Cons label rest)
  then have rest: "set rest \<subseteq> {TagO, TagB, TagI}" and l: "label \<in> {TagO, TagB, TagI}" by auto
  note cl = Cons.prems(2)
  note IH = Cons.IH[OF rest]
  have clO: "bioul_scan 0 None ((ob @ [TagO]) @ r) =
               bioul_scan 0 None (ob @ [TagO]) @ bioul_scan (length (ob @ [TagO])) None r"
    and scO: "bioul_scan 0 None (ob @ [TagO]) = bioul_scan 0 None ob"
    if "\<And>r. bioul_scan 0 None (ob @ r) = bioul_scan 0 None ob @ bioul_scan (length ob) None r"
    for ob r
    using that[of "TagO # r"] that[of "[TagO]"] by simp_all
  show ?case
  proof (cases "stack = []")
    case True
    from l consider "label = TagO" | "label = TagB" | "label = TagI" by auto
    then show ?thesis
    proof cases
      case 1
      from IH[of "out @ [TagO]" "[]", OF clO[OF cl]] obtain r where
        r: "to_bioul_loop (of_ascii ''IOB1'') whole rest [] (out @ [TagO]) = Inr r"
        "bioul_scan 0 None r =
           bioul_scan 0 None (out @ [TagO]) @
           iob1_scan (length (out @ [TagO]) + length ([] :: tag list)) None rest"
        by auto
      have "to_bioul_loop (of_ascii ''IOB1'') whole (label # rest) stack out = Inr r"
        using r(1) True 1 by simp
      moreover have "bioul_scan 0 None r =
             bioul_scan 0 None out @
             iob1_scan (length out + length stack)
               (if stack = [] then None else Some (length out)) (label # rest)"
        unfolding r(2) scO[OF cl] using True 1 by (simp add: close_span_def)
      ultimately show ?thesis by blast
    next
      case 2
      from IH[of out "[TagB]", OF cl] obtain r where
        r: "to_bioul_loop (of_ascii ''IOB1'') whole rest [TagB] out = Inr r"
        "bioul_scan 0 None r =
           bioul_scan 0 None out @ iob1_scan (length out + length [TagB]) (Some (length out)) rest"
        by auto
      have "to_bioul_loop (of_ascii ''IOB1'') whole (label # rest) stack out = Inr r"
        using r(1) True 2 by simp
      moreover have "bioul_scan 0 None r =
             bioul_scan 0 None out @
             iob1_scan (length out + length stack)
               (if stack = [] then None else Some (length out)) (label # rest)"
        unfolding r(2) using True 2 by (simp add: close_span_def)
      ultimately show ?thesis by blast
    next
      case 3
      from IH[of out "[TagI]", OF cl] obtain r where
        r: "to_bioul_loop (of_ascii ''IOB1'') whole rest [TagI] out = Inr r"
        "bioul_scan 0 None r =
           bioul_scan 0 None out @ iob1_scan (length out + length [TagI]) (Some (length out)) rest"
        by auto
      have "to_bioul_loop (of_ascii ''IOB1'') whole (label # rest) stack out = Inr r"
        using r(1) True 3 by simp
      moreover have "bioul_scan 0 None r =
             bioul_scan 0 None out @
             iob1_scan (length out + length stack)
               (if stack = [] then None else Some (length out)) (label # rest)"
        unfolding r(2) using True 3 by simp
      ultimately show ?thesis by blast
    qed
  next
    case False
    from process_stack_block[OF False, of out] obtain blk where
      b: "process_stack stack out = Inr (out @ blk)" "length blk = length stack"
      "\<And>p rest. bioul_scan p None (blk @ rest) =
              (p, p + length stack) # bioul_scan (p + length stack) None rest"
      by blast
    have sc': "bioul_scan 0 None (out @ blk) =
                 bioul_scan 0 None out @ [(length out, length out + length stack)]"
      unfolding cl[of blk] using b(3)[of "length out" "[]"] by simp
    have cl': "bioul_scan 0 None ((out @ blk) @ r) =
                 bioul_scan 0 None (out @ blk) @ bioul_scan (length (out @ blk)) None r" for r
    proof -
      have "bioul_scan 0 None ((out @ blk) @ r) = bioul_scan 0 None (out @ (blk @ r))" by simp
      also have "\<dots> = bioul_scan 0 None out @ bioul_scan (length out) None (blk @ r)"
        by (rule cl)
      also have "\<dots> = bioul_scan 0 None out @
            (length out, length out + length stack) # bioul_scan (length out + length stack) None r"
        unfolding b(3) ..
      finally show ?thesis unfolding sc' using b(2) by simp
    qed
    from l consider "label = TagO" | "label = TagB" | "label = TagI" by auto
    then show ?thesis
    proof cases
      case 1
      from IH[of "(out @ blk) @ [TagO]" "[]", OF clO[of "out @ blk", OF cl']] obtain r where
        r: "to_bioul_loop (of_ascii ''IOB1'') whole rest [] ((out @ blk) @ [TagO]) = Inr r"
        "bioul_scan 0 None r =
           bioul_scan 0 None ((out @ blk) @ [TagO]) @
           iob1_scan (length ((out @ blk) @ [TagO]) + length ([] :: tag list)) None rest"
        by auto
      have "to_bioul_loop (of_ascii ''IOB1'') whole (label # rest) stack out = Inr r"
        using r(1) False 1 b(1) by simp
      moreover have "bioul_scan 0 None r =
             bioul_scan 0 None out @
             iob1_scan (length out + length stack)
               (if stack = [] then None else Some (length out)) (label # rest)"
        unfolding r(2) scO[of "out @ blk", OF cl'] sc' using False 1 b(2)
        by (simp add: close_span_def)
      ultimately show ?thesis by blast
    next
      case 2
      from IH[of "out @ blk" "[TagB]", OF cl'] obtain r where
        r: "to_bioul_loop (of_ascii ''IOB1'') whole rest [TagB] (out @ blk) = Inr r"
        "bioul_scan 0 None r =
           bioul_scan 0 None (out @ blk) @
           iob1_scan (length (out @ blk) + length [TagB]) (Some (length (out @ blk))) rest"
        by auto
      have "to_bioul_loop (of_ascii ''IOB1'') whole (label # rest) stack out = Inr r"
        using r(1) False 2 b(1) by simp
      moreover have "bioul_scan 0 None r =
             bioul_scan 0 None out @
             iob1_scan (length out + length stack)
               (if stack = [] then None else Some (length out)) (label # rest)"
        unfolding r(2) sc' using False 2 b(2) by (simp add: close_span_def)
      ultimately show ?thesis by blast
    next
      case 3
      from IH[of out "stack @ [TagI]", OF cl] obtain r where
        r: "to_bioul_loop (of_ascii ''IOB1'') whole rest (stack @ [TagI]) out = Inr r"
        "bioul_scan 0 None r =
           bioul_scan 0 None out @
           iob1_scan (length out + length (stack @ [TagI])) (Some (length out)) rest"
        by auto
      have "to_bioul_loop (of_ascii ''IOB1'') whole (label # rest) stack out = Inr r"
        using r(1) False 3 by simp
      moreover have "bioul_scan 0 None r =
             bioul_scan 0 None out @
             iob1_scan (length out + length stack)
               (if stack = [] then None else Some (length out)) (label # rest)"
        unfolding r(2) using False 3 by simp
      ultimately show ?thesis by blast
    qed
  qed
qed

lemma to_bioul_spans:
  assumes "set tags \<subseteq> {TagO, TagB, TagI}"
  shows "\<exists>r. to_bioul tags (of_ascii ''IOB1'') = Inr r \<and> bioul_spans r = iob1_spans tags \<and>
           from_bioul r = to_bio False tags"
proof -
  from to_bioul_loop_spans[OF assms, of "[]" tags "[]"] obtain r where
    r: "to_bioul_loop (of_ascii ''IOB1'') tags tags [] [] = Inr r"
       "bioul_scan 0 None r = iob1_scan 0 None tags" by auto
  from to_bioul_loop_from_bioul[OF assms, of tags "[]" "[]"] r(1)
  have "from_bioul r = to_bio False tags" by (simp add: norm_stack_def from_bioul_def)
  with r show ?thesis by (simp add: to_bioul_def bioul_spans_def iob1_spans_def)
qed

lemma wf_iob_from_index:
  assumes "set tags \<subseteq> {TagO, TagB, TagI}"
    and "\<And>k. k < length tags \<Longrightarrow> tags ! k = TagI \<Longrightarrow>
           (k = 0 \<and> opn) \<or> (0 < k \<and> (tags ! (k - 1) = TagB \<or> tags ! (k - 1) = TagI))"
  shows "wf_iob_from opn tags"
  using assms
proof (induction tags arbitrary: opn)
  case Nil
  then show ?case by simp
next
  case (Cons t ts)
  then have ts: "set ts \<subseteq> {TagO, TagB, TagI}" and t: "t \<in> {TagO, TagB, TagI}" by auto
  have step: "(k = 0 \<and> t \<noteq> TagO) \<or> (0 < k \<and> (ts ! (k - 1) = TagB \<or> ts ! (k - 1) = TagI))"
    if "k < length ts" "ts ! k = TagI" for k
  proof -
    from Cons.prems(2)[of "Suc k"] that
    have p: "(t # ts) ! k = TagB \<or> (t # ts) ! k = TagI" by simp
    show ?thesis
    proof (cases k)
      case 0
      with p show ?thesis by auto
    next
      case (Suc m)
      with p show ?thesis by simp
    qed
  qed
  have hd: "t = TagI \<Longrightarrow> opn" using Cons.prems(2)[of 0] by simp
  have w: "wf_iob_from (t \<noteq> TagO) ts"
    by (rule Cons.IH[OF ts]) (use step in blast)
  from t consider "t = TagO" | "t = TagB" | "t = TagI" by auto
  then show ?case using w hd by cases simp_all
qed

lemma label_tags_wf_iob:
  assumes "label_tags tokens refs = Inr tags"
  shows "wf_iob tags"
  unfolding wf_iob_def
  by (rule wf_iob_from_index[OF label_tags_obi[OF assms]])
    (use label_tags_I_pred[OF assms] in blast)

section \<open>The claims\<close>

text \<open>
  Claim C1. For every tokenized sentence and every reference list, the tag sequence of
  the reader is the result of the reference algorithm of the specification: one \<open>O\<close>
  per token, then every start \<open>i\<close> and every end \<open>j > i\<close> in ascending order, a matching
  span writing \<open>B\<close> at \<open>i\<close> and \<open>I\<close> at \<open>i+1 .. j-1\<close>, later spans overwriting earlier
  ones. The loop of the reader never raises.
\<close>

theorem label_tags_refines_spec:
  "label_tags tokens refs = Inr (spec_label (map tok_text tokens) refs)"
  by (rule label_tags_spec)

text \<open>
  Claim C2. For a reader that the constructor has built, the labelling loop returns one tag
  per token, the instance is built and holds as many tags as tokens, with or without the
  recoding to BIOUL; so does every instance of a whole table. The slice assignment of
  line 126 keeps the length of the list.
\<close>

theorem tags_length_equals_tokens_length:
  assumes "init lib tis cs ns kw = (ev, Inr self)"
  shows "(\<exists>tags inst. label_tags tokens refs = Inr tags \<and> length tags = length tokens \<and>
            text_to_instance self tokens tags = Inr inst \<and> inst_tokens inst = tokens \<and>
            length (inst_tags inst) = length (inst_tokens inst)) \<and>
         (\<exists>insts. read_rows self df = Inr insts \<and>
            (\<forall>inst \<in> set insts. length (inst_tags inst) = length (inst_tokens inst))) \<and>
         (\<forall>i j ts. i < j \<and> j \<le> length ts \<longrightarrow>
            length (set_slice ts (i + 1) j (replicate (j - i - 1) TagI)) = length (ts :: tag list))"
proof -
  from init_reader[OF assms] have o: "original_coding_scheme self = of_ascii ''IOB1''" by simp
  from label_tags_closed[of tokens refs] obtain tags where
    t: "label_tags tokens refs = Inr tags" "length tags = length tokens" by blast
  from text_to_instance_ok[OF o label_tags_obi[OF t(1)] t(2)] obtain inst where
    "text_to_instance self tokens tags = Inr inst" "inst_tokens inst = tokens"
    "length (inst_tags inst) = length tokens" by blast
  with t have 1: "\<exists>tags inst. label_tags tokens refs = Inr tags \<and> length tags = length tokens \<and>
            text_to_instance self tokens tags = Inr inst \<and> inst_tokens inst = tokens \<and>
            length (inst_tags inst) = length (inst_tokens inst)" by auto
  have 3: "\<forall>i j ts. i < j \<and> j \<le> length ts \<longrightarrow>
            length (set_slice ts (i + 1) j (replicate (j - i - 1) TagI)) = length (ts :: tag list)"
    by (auto simp: set_slice_def)
  from 1 read_rows_ok[OF o, of df] 3 show ?thesis by blast
qed

theorem tags_length_equals_tokens_length_witness:
  "init example_lib None (Some (of_ascii ''BIOUL'')) (of_ascii ''labels'') [] =
     ([SuperInit, LoadTokenizer (of_ascii ''zh_core_web_sm''),
       LoadSentenceSplitter (of_ascii ''zh_core_web_sm'')], Inr example_reader) \<and>
   map inst_tags (projr (read_rows example_reader [example_row])) = [[TagO, TagB, TagL, TagO]] \<and>
   map (length \<circ> inst_tokens) (projr (read_rows example_reader [example_row])) = [4]"
proof -
  note i = example_init
  note t = example_row_tags
  from tags_length_equals_tokens_length[OF i, of "[]" "[]" "[example_row]"]
  obtain insts where "read_rows example_reader [example_row] = Inr insts"
    "\<forall>inst \<in> set insts. length (inst_tags inst) = length (inst_tokens inst)" by blast
  with t have "map (length \<circ> inst_tokens) (projr (read_rows example_reader [example_row])) = [4]"
    by auto
  with i t show ?thesis by blast
qed

text \<open>
  Claim C3, amended. Every maximal span of the tag sequence, a \<open>B\<close> followed by the
  \<open>I\<close> after it, spells a reference of the record if and only if every run of tokens
  from the start of a matching span up to the next token that starts a matching span or
  lies inside none (or up to the end of the sentence) is itself a matching span. This
  is so in particular when no matching span starts strictly inside another one, that is
  when any two matching spans start at the same token or share no token.
\<close>

theorem spans_are_references_exactly:
  "\<exists>tags. label_tags tokens refs = Inr tags \<and>
     ((\<forall>k m. maximal_span tags k m \<longrightarrow> join_text (get_slice tokens k m) \<in> set refs) \<longleftrightarrow>
        runs_match tokens refs) \<and>
     (no_match_starts_inside tokens refs \<longrightarrow>
        (\<forall>k m. maximal_span tags k m \<longrightarrow> join_text (get_slice tokens k m) \<in> set refs))"
proof -
  from label_tags_closed[of tokens refs] obtain tags where t: "label_tags tokens refs = Inr tags"
    by blast
  note iff = spans_are_references_iff[OF t]
  moreover have "\<forall>k m. maximal_span tags k m \<longrightarrow> join_text (get_slice tokens k m) \<in> set refs"
    if "no_match_starts_inside tokens refs"
    using aligned_runs_match[OF that] iff by blast
  ultimately show ?thesis using t by blast
qed

theorem spans_are_references_exactly_witness:
  "runs_match [tok [97], tok [98], tok [99]] [[97], [97, 98], [98, 99]] \<and>
   \<not> no_match_starts_inside [tok [97], tok [98], tok [99]] [[97], [97, 98], [98, 99]] \<and>
   label_tags [tok [97], tok [98], tok [99]] [[97], [97, 98], [98, 99]] = Inr [TagB, TagB, TagI] \<and>
   maximal_span [TagB, TagB, TagI] 1 3 \<and>
   join_text (get_slice [tok [97], tok [98], tok [99]] 1 3) \<in> set [[97], [97, 98], [98, 99]] \<and>
   match_spans [tok [97], tok [98], tok [99], tok [100]] [[97], [97, 98], [100]] =
     [(0, 1), (0, 2), (3, 4)] \<and>
   no_match_starts_inside [tok [97], tok [98], tok [99], tok [100]] [[97], [97, 98], [100]] \<and>
   label_tags [tok [97], tok [98], tok [99], tok [100]] [[97], [97, 98], [100]] =
     Inr [TagB, TagI, TagO, TagB] \<and>
   maximal_span [TagB, TagI, TagO, TagB] 0 2 \<and>
   join_text (get_slice [tok [97], tok [98], tok [99], tok [100]] 0 2) \<in>
     set [[97], [97, 98], [100]]"
proof -
  have r1: "runs_match [tok [97], tok [98], tok [99]] [[97], [97, 98], [98, 99]]"
    by code_simp
  have n1: "\<not> no_match_starts_inside [tok [97], tok [98], tok [99]] [[97], [97, 98], [98, 99]]"
    by code_simp
  have l1: "label_tags [tok [97], tok [98], tok [99]] [[97], [97, 98], [98, 99]] =
      Inr [TagB, TagB, TagI]"
    by code_simp
  have m1: "maximal_span [TagB, TagB, TagI] 1 3"
    by (simp add: maximal_span_def get_slice_def)
  from spans_are_references_exactly[of "[tok [97], tok [98], tok [99]]" "[[97], [97, 98], [98, 99]]"]
    r1 l1 m1
  have j1: "join_text (get_slice [tok [97], tok [98], tok [99]] 1 3) \<in>
      set [[97], [97, 98], [98, 99]]"
    by auto
  have s2: "match_spans [tok [97], tok [98], tok [99], tok [100]] [[97], [97, 98], [100]] =
     [(0, 1), (0, 2), (3, 4)]"
    by code_simp
  have n2: "no_match_starts_inside [tok [97], tok [98], tok [99], tok [100]] [[97], [97, 98], [100]]"
    by (simp add: no_match_starts_inside_def s2)
  have l2: "label_tags [tok [97], tok [98], tok [99], tok [100]] [[97], [97, 98], [100]] =
     Inr [TagB, TagI, TagO, TagB]"
    by code_simp
  have m2: "maximal_span [TagB, TagI, TagO, TagB] 0 2"
    by (simp add: maximal_span_def get_slice_def)
  from spans_are_references_exactly[of "[tok [97], tok [98], tok [99], tok [100]]"
      "[[97], [97, 98], [100]]"] n2 l2 m2
  have j2: "join_text (get_slice [tok [97], tok [98], tok [99], tok [100]] 0 2) \<in>
     set [[97], [97, 98], [100]]"
    by auto
  from r1 n1 l1 m1 j1 s2 n2 l2 m2 j2 show ?thesis by blast
qed

text \<open>
  Claim C3 as it is stated fails when matches overlap. With the tokens \<open>a\<close>, \<open>b\<close>, \<open>c\<close>
  and the references \<open>ab\<close> and \<open>bc\<close> the loop writes \<open>B I O\<close> for the first match and then
  \<open>B\<close> at the second token for the second: the result is \<open>B B I\<close>, whose first maximal
  span is the token \<open>a\<close> alone, and \<open>a\<close> is no reference.
\<close>

theorem overlapping_span_not_a_reference:
  "label_tags [tok [97], tok [98], tok [99]] [[97, 98], [98, 99]] = Inr [TagB, TagB, TagI] \<and>
   maximal_span [TagB, TagB, TagI] 0 1 \<and>
   join_text (get_slice [tok [97], tok [98], tok [99]] 0 1) \<notin> set [[97, 98], [98, 99]]"
proof -
  have "label_tags [tok [97], tok [98], tok [99]] [[97, 98], [98, 99]] = Inr [TagB, TagB, TagI]"
    by code_simp
  moreover have "maximal_span [TagB, TagB, TagI] 0 1"
    by (simp add: maximal_span_def get_slice_def)
  moreover have "join_text (get_slice [tok [97], tok [98], tok [99]] 0 1) \<notin> set [[97, 98], [98, 99]]"
    by (simp add: join_text_def get_slice_def tok_def)
  ultimately show ?thesis by blast
qed

text \<open>
  Claim C4. The constructor never resolves, logs or reads a data file, whatever the
  libraries do. When the constructor of the base class returns, a coding scheme that is
  neither \<open>IOB1\<close> nor \<open>BIOUL\<close>, the value \<open>None\<close> included, ends the constructor with
  the configuration error, right after the base class and before the spaCy pipeline is
  loaded. When moreover the two loads of the pipeline return, the constructor raises a
  configuration error exactly for such a scheme, and for the two recognized schemes it
  returns a reader with that scheme.
\<close>

theorem init_configuration_error:
  "(\<forall>p. ReadCsv p \<notin> set (fst (init lib tis cs ns kw)) \<and>
        LogInfo p \<notin> set (fst (init lib tis cs ns kw)) \<and>
        CachedPath p \<notin> set (fst (init lib tis cs ns kw))) \<and>
   (base_init lib kw = None \<longrightarrow>
      (cs \<noteq> Some (of_ascii ''IOB1'') \<and> cs \<noteq> Some (of_ascii ''BIOUL'') \<longrightarrow>
         init lib tis cs ns kw =
           ([SuperInit],
            Inl (ConfigurationError (of_ascii ''unknown coding_scheme: '' @ py_format cs)))) \<and>
      init lib tis None ns kw =
        ([SuperInit], Inl (ConfigurationError (of_ascii ''unknown coding_scheme: None''))) \<and>
      (spacy_tokenizer lib (of_ascii ''zh_core_web_sm'') = Inr tk \<and>
       spacy_sentence_splitter lib (of_ascii ''zh_core_web_sm'') = Inr sp \<longrightarrow>
         ((\<exists>msg. snd (init lib tis cs ns kw) = Inl (ConfigurationError msg)) \<longleftrightarrow>
            cs \<noteq> Some (of_ascii ''IOB1'') \<and> cs \<noteq> Some (of_ascii ''BIOUL'')) \<and>
         ((\<exists>self. snd (init lib tis cs ns kw) = Inr self \<and> coding_scheme self = the cs \<and>
                  tokenizer self = tk \<and> sentence_segmenter self = sp) \<longleftrightarrow>
            cs = Some (of_ascii ''IOB1'') \<or> cs = Some (of_ascii ''BIOUL''))))"
proof -
  have ev: "\<forall>p. ReadCsv p \<notin> set (fst (init lib tis cs ns kw)) \<and>
        LogInfo p \<notin> set (fst (init lib tis cs ns kw)) \<and>
        CachedPath p \<notin> set (fst (init lib tis cs ns kw))"
    by (auto simp: init_def Let_def split: option.splits sum.splits)
  have bad: "init lib tis cs ns kw =
           ([SuperInit],
            Inl (ConfigurationError (of_ascii ''unknown coding_scheme: '' @ py_format cs)))"
    if "base_init lib kw = None" "cs \<noteq> Some (of_ascii ''IOB1'') \<and> cs \<noteq> Some (of_ascii ''BIOUL'')"
    using that by (simp add: init_def Let_def)
  have none: "init lib tis None ns kw =
        ([SuperInit], Inl (ConfigurationError (of_ascii ''unknown coding_scheme: None'')))"
    if "base_init lib kw = None"
    using that by (simp add: init_def Let_def of_ascii_def)
  have good: "\<exists>self. snd (init lib tis cs ns kw) = Inr self \<and> coding_scheme self = the cs \<and>
                  tokenizer self = tk \<and> sentence_segmenter self = sp"
    if "base_init lib kw = None" "spacy_tokenizer lib (of_ascii ''zh_core_web_sm'') = Inr tk"
      "spacy_sentence_splitter lib (of_ascii ''zh_core_web_sm'') = Inr sp"
      "cs = Some (of_ascii ''IOB1'') \<or> cs = Some (of_ascii ''BIOUL'')"
    using that by (auto simp: init_def Let_def)
  have iffs: "((\<exists>msg. snd (init lib tis cs ns kw) = Inl (ConfigurationError msg)) \<longleftrightarrow>
            cs \<noteq> Some (of_ascii ''IOB1'') \<and> cs \<noteq> Some (of_ascii ''BIOUL'')) \<and>
         ((\<exists>self. snd (init lib tis cs ns kw) = Inr self \<and> coding_scheme self = the cs \<and>
                  tokenizer self = tk \<and> sentence_segmenter self = sp) \<longleftrightarrow>
            cs = Some (of_ascii ''IOB1'') \<or> cs = Some (of_ascii ''BIOUL''))"
    if b: "base_init lib kw = None" and l: "spacy_tokenizer lib (of_ascii ''zh_core_web_sm'') = Inr tk"
      "spacy_sentence_splitter lib (of_ascii ''zh_core_web_sm'') = Inr sp"
  proof (cases "cs = Some (of_ascii ''IOB1'') \<or> cs = Some (of_ascii ''BIOUL'')")
    case True
    from good[OF b l True] True show ?thesis by auto
  next
    case False
    then have "cs \<noteq> Some (of_ascii ''IOB1'') \<and> cs \<noteq> Some (of_ascii ''BIOUL'')" by simp
    from bad[OF b this] False show ?thesis by auto
  qed
  from ev bad none iffs show ?thesis by blast
qed

theorem init_configuration_error_witness:
  "base_init example_lib [] = None \<and>
   spacy_tokenizer example_lib (of_ascii ''zh_core_web_sm'') = Inr char_tokenizer \<and>
   spacy_sentence_splitter example_lib (of_ascii ''zh_core_web_sm'') = Inr one_sentence \<and>
   Some (of_ascii ''IOB2'') \<noteq> Some (of_ascii ''IOB1'') \<and>
   Some (of_ascii ''IOB2'') \<noteq> Some (of_ascii ''BIOUL'') \<and>
   init example_lib None (Some (of_ascii ''IOB2'')) (of_ascii ''labels'') [] =
     ([SuperInit], Inl (ConfigurationError (of_ascii ''unknown coding_scheme: IOB2''))) \<and>
   (\<exists>self. snd (init example_lib None (Some (of_ascii ''BIOUL'')) (of_ascii ''labels'') []) =
             Inr self \<and>
           coding_scheme self = of_ascii ''BIOUL'' \<and> tokenizer self = char_tokenizer)"
proof -
  have h: "base_init example_lib [] = None"
    "spacy_tokenizer example_lib (of_ascii ''zh_core_web_sm'') = Inr char_tokenizer"
    "spacy_sentence_splitter example_lib (of_ascii ''zh_core_web_sm'') = Inr one_sentence"
    by (simp_all add: example_lib_def)
  have n: "Some (of_ascii ''IOB2'') \<noteq> Some (of_ascii ''IOB1'') \<and>
           Some (of_ascii ''IOB2'') \<noteq> Some (of_ascii ''BIOUL'')"
    by (simp add: of_ascii_def)
  from init_configuration_error[of example_lib None "Some (of_ascii ''IOB2'')"
      "of_ascii ''labels''" "[]"] h(1) n
  have 1: "init example_lib None (Some (of_ascii ''IOB2'')) (of_ascii ''labels'') [] =
     ([SuperInit], Inl (ConfigurationError (of_ascii ''unknown coding_scheme: IOB2'')))"
    by (simp add: of_ascii_def)
  from init_configuration_error[of example_lib None "Some (of_ascii ''BIOUL'')"
      "of_ascii ''labels''" "[]" char_tokenizer one_sentence] h
  have 2: "\<exists>self. snd (init example_lib None (Some (of_ascii ''BIOUL'')) (of_ascii ''labels'') []) =
             Inr self \<and>
           coding_scheme self = of_ascii ''BIOUL'' \<and> tokenizer self = char_tokenizer"
    by auto
  from h n 1 2 show ?thesis by blast
qed

text \<open>
  Claim C5. The reference list of a cell: the cell \<open>A;B;C\<close> (with the fullwidth semicolon)
  gives the three candidates \<open>A\<close>, \<open>B\<close>, \<open>C\<close>, for the three letters and for any three
  texts free of separator and marker of which the first and the last are not empty; a
  separator at the end of any cell makes no difference to the result; the candidates are
  the pieces between the separators of the cell without its marker characters (and
  without the separators at its two ends), so no candidate holds a marker or a
  separator.
\<close>

theorem read_refs_contract:
  "read_refs (Str [65, SEP, 66, SEP, 67]) = [[65], [66], [67]] \<and>
   (\<forall>A B C. A \<noteq> [] \<and> C \<noteq> [] \<and> SEP \<notin> set (A @ B @ C) \<and> BAR \<notin> set (A @ B @ C) \<longrightarrow>
      read_refs (Str (A @ [SEP] @ B @ [SEP] @ C)) = [A, B, C]) \<and>
   (\<forall>cell. read_refs (Str (cell @ [SEP])) = read_refs (Str cell)) \<and>
   (\<forall>cell. py_join [SEP] (read_refs (Str cell)) = py_remove BAR (py_strip [SEP] cell)) \<and>
   (\<forall>cell. \<forall>r \<in> set (read_refs (Str cell)). BAR \<notin> set r \<and> SEP \<notin> set r)"
proof (intro conjI allI impI ballI)
  show "read_refs (Str [65, SEP, 66, SEP, 67]) = [[65], [66], [67]]"
    by (simp add: read_refs_def py_strip_def py_remove_def SEP_def BAR_def)
next
  fix A B C :: ustr
  assume "A \<noteq> [] \<and> C \<noteq> [] \<and> SEP \<notin> set (A @ B @ C) \<and> BAR \<notin> set (A @ B @ C)"
  then show "read_refs (Str (A @ [SEP] @ B @ [SEP] @ C)) = [A, B, C]"
    using read_refs_three by blast
next
  fix cell
  show "read_refs (Str (cell @ [SEP])) = read_refs (Str cell)"
    by (simp add: read_refs_def py_strip_trailing)
next
  fix cell
  show "py_join [SEP] (read_refs (Str cell)) = py_remove BAR (py_strip [SEP] cell)"
    by (simp add: read_refs_def py_join_split)
next
  fix cell r
  assume "r \<in> set (read_refs (Str cell))"
  then have "r \<in> set (py_split SEP (py_remove BAR (py_strip [SEP] cell)))"
    by (simp add: read_refs_def)
  from py_split_pieces_subset[OF this] show "BAR \<notin> set r"
    by (auto simp: py_remove_def)
next
  fix cell r
  assume "r \<in> set (read_refs (Str cell))"
  then show "SEP \<notin> set r" by (simp add: read_refs_def py_split_pieces)
qed

theorem read_refs_contract_witness:
  "read_refs (Str ([68, 69] @ [SEP] @ [] @ [SEP] @ [70])) = [[68, 69], [], [70]] \<and>
   read_refs (Str [SEP, 65, BAR, SEP, BAR, 66, SEP, SEP]) = [[65], [66]] \<and>
   BAR \<notin> set [65] \<and> SEP \<notin> set [65]"
proof -
  have h: "[68, 69] \<noteq> [] \<and> [70] \<noteq> [] \<and> SEP \<notin> set ([68, 69] @ [] @ [70]) \<and>
           BAR \<notin> set ([68, 69] @ [] @ [70 :: nat])"
    by (simp add: SEP_def BAR_def)
  have e: "read_refs (Str [SEP, 65, BAR, SEP, BAR, 66, SEP, SEP]) = [[65], [66]]"
    by (simp add: read_refs_def py_strip_def py_remove_def SEP_def BAR_def)
  from read_refs_contract h
  have 1: "read_refs (Str ([68, 69] @ [SEP] @ [] @ [SEP] @ [70])) = [[68, 69], [], [70]]"
    by blast
  from read_refs_contract
  have "\<forall>r \<in> set (read_refs (Str [SEP, 65, BAR, SEP, BAR, 66, SEP, SEP])). BAR \<notin> set r \<and> SEP \<notin> set r"
    by blast
  with e have "BAR \<notin> set [65] \<and> SEP \<notin> set [65]" by simp
  with 1 e show ?thesis by blast
qed

text \<open>
  Claim C6, amended. For a missing \<open>references_all\<close> value the reference list has one
  element, never none: the text of the missing value, which is the lower-case \<open>nan\<close>
  that \<open>str\<close> makes of the float.
\<close>

theorem read_refs_missing:
  "read_refs NaN = [of_ascii ''nan''] \<and> length (read_refs NaN) = 1 \<and> read_refs NaN \<noteq> []"
  by (simp add: read_refs_def py_strip_def py_remove_def SEP_def BAR_def of_ascii_def)

text \<open>
  Claim C6 as it is stated names the text \<open>NaN\<close>; the one element of the list is not that
  text.
\<close>

theorem read_refs_missing_not_upper_case:
  "read_refs NaN \<noteq> [of_ascii ''NaN'']"
  by (simp add: read_refs_def py_strip_def py_remove_def SEP_def BAR_def of_ascii_def)

text \<open>
  Claim C7. The example of the specification: the record's cell is the title of the
  civil code in its brackets, and the sentence is tokenized so that the opening
  bracket, the title and the closing bracket are three tokens next to each other, this
  span being the only one that spells the reference. Then the cell is parsed to that
  single reference and the loop tags the three tokens \<open>B\<close>, \<open>I\<close>, \<open>I\<close> and every other
  token \<open>O\<close>.
\<close>

theorem civil_code_example:
  assumes "tokens = pre @ [t1, t2, t3] @ post"
    and "tok_text t1 = [0x300A]" and "tok_text t2 = [0x6C11, 0x6CD5, 0x5178]"
    and "tok_text t3 = [0x300B]"
    and "match_spans tokens (read_refs (Str CIVIL_CODE)) = [(length pre, length pre + 3)]"
  shows "read_refs (Str CIVIL_CODE) = [CIVIL_CODE] \<and>
         join_text [t1, t2, t3] = CIVIL_CODE \<and>
         label_tags tokens (read_refs (Str CIVIL_CODE)) =
           Inr (replicate (length pre) TagO @ [TagB, TagI, TagI] @ replicate (length post) TagO)"
proof -
  have "length tokens = length pre + 3 + length post" using assms(1) by simp
  from single_match_tags[OF assms(5) this] assms(2-4) read_refs_civil_code
  show ?thesis by (simp add: join_text_def CIVIL_CODE_def)
qed

theorem civil_code_example_witness:
  "match_spans example_sentence_tokens (read_refs (Str CIVIL_CODE)) = [(2, 5)] \<and>
   label_tags example_sentence_tokens (read_refs (Str CIVIL_CODE)) =
     Inr [TagO, TagO, TagB, TagI, TagI, TagO, TagO, TagO, TagO]"
proof -
  have e: "example_sentence_tokens =
     [tok [0x672C, 0x6848], tok [0x4F9D, 0x636E]] @
     [tok [0x300A], tok [0x6C11, 0x6CD5, 0x5178], tok [0x300B]] @
     [tok [0x7B2C, 0x4E00], tok [0x6761], tok [0x5224, 0x51B3], tok [0x3002]]"
    by (simp add: example_sentence_tokens_def)
  have m: "match_spans example_sentence_tokens (read_refs (Str CIVIL_CODE)) = [(2, 5)]"
    unfolding read_refs_civil_code
    by (simp add: match_spans_def all_spans_def join_text_def get_slice_def tok_def
        example_sentence_tokens_def CIVIL_CODE_def)
  have m': "match_spans example_sentence_tokens (read_refs (Str CIVIL_CODE)) =
      [(length [tok [0x672C, 0x6848], tok [0x4F9D, 0x636E]],
        length [tok [0x672C, 0x6848], tok [0x4F9D, 0x636E]] + 3)]"
    using m by simp
  have c: "tok_text (tok [0x300A]) = [0x300A]"
    "tok_text (tok [0x6C11, 0x6CD5, 0x5178]) = [0x6C11, 0x6CD5, 0x5178]"
    "tok_text (tok [0x300B]) = [0x300B]"
    by (simp_all add: tok_def)
  from civil_code_example[OF e c m']
  have "label_tags example_sentence_tokens (read_refs (Str CIVIL_CODE)) =
     Inr (replicate (length [tok [0x672C, 0x6848], tok [0x4F9D, 0x636E]]) TagO @
          [TagB, TagI, TagI] @
          replicate (length [tok [0x7B2C, 0x4E00], tok [0x6761], tok [0x5224, 0x51B3], tok [0x3002]]) TagO)"
    by blast
  then have "label_tags example_sentence_tokens (read_refs (Str CIVIL_CODE)) =
     Inr [TagO, TagO, TagB, TagI, TagI, TagO, TagO, TagO, TagO]"
    by simp
  with m show ?thesis by simp
qed

text \<open>
  Claim C8. Every tag sequence the labelling loop produces is well-formed, overlapping
  matches or not: a token tagged \<open>I\<close> is never the first token, and the token before it
  is tagged \<open>B\<close> or \<open>I\<close>, never \<open>O\<close>.
\<close>

theorem label_tags_iob1_wellformed:
  "\<exists>tags. label_tags tokens refs = Inr tags \<and>
     (\<forall>k < length tags. tags ! k = TagI \<longrightarrow>
        0 < k \<and> (tags ! (k - 1) = TagB \<or> tags ! (k - 1) = TagI))"
proof -
  from label_tags_closed[of tokens refs] obtain tags where t: "label_tags tokens refs = Inr tags"
    by blast
  with label_tags_I_pred[OF t] show ?thesis by blast
qed

theorem label_tags_iob1_wellformed_witness:
  "label_tags [tok [97], tok [98], tok [99]] [[97, 98], [98, 99]] = Inr [TagB, TagB, TagI] \<and>
   [TagB, TagB, TagI] ! 2 = TagI \<and> [TagB, TagB, TagI] ! (2 - 1) = TagB"
proof -
  have e: "label_tags [tok [97], tok [98], tok [99]] [[97, 98], [98, 99]] = Inr [TagB, TagB, TagI]"
    by code_simp
  from label_tags_iob1_wellformed[of "[tok [97], tok [98], tok [99]]" "[[97, 98], [98, 99]]"] e
  have "\<forall>k < length [TagB, TagB, TagI]. [TagB, TagB, TagI] ! k = TagI \<longrightarrow>
        0 < k \<and> ([TagB, TagB, TagI] ! (k - 1) = TagB \<or> [TagB, TagB, TagI] ! (k - 1) = TagI)"
    by simp
  then have "[TagB, TagB, TagI] ! 2 = TagI \<longrightarrow> [TagB, TagB, TagI] ! (2 - 1) = TagB \<or> [TagB, TagB, TagI] ! (2 - 1) = TagI"
    by simp
  with e show ?thesis by simp
qed

text \<open>
  Claim C9. The tags of a sentence depend on the texts of its tokens and on the set of
  references only: two token sequences with the same texts get the same tags under
  reference lists with the same entries, and two sentences whose tokens have the same
  texts get instances with the same tags from one reader. The instances of a record are
  the same whatever records are read before and after it: reading a table gives the
  instances of the records before, of the record, and of the records after, in this
  order.
\<close>

theorem labelling_independent_of_other_records:
  assumes "init lib tis cs ns kw = (ev, Inr self)"
  shows "(map tok_text toks1 = map tok_text toks2 \<and> set refs1 = set refs2 \<longrightarrow>
            label_tags toks1 refs1 = label_tags toks2 refs2) \<and>
         (map tok_text (tokenizer self s1) = map tok_text (tokenizer self s2) \<longrightarrow>
            (\<exists>i1 i2. read_sentence self refs s1 = Inr i1 \<and> read_sentence self refs s2 = Inr i2 \<and>
               inst_tags i1 = inst_tags i2)) \<and>
         (\<exists>a b c. read_rows self before = Inr a \<and> read_rows self [line] = Inr b \<and>
            read_rows self after = Inr c \<and>
            read_rows self (before @ [line] @ after) = Inr (a @ b @ c))"
proof -
  from init_reader[OF assms] have o: "original_coding_scheme self = of_ascii ''IOB1''" by simp
  from read_rows_ok[OF o, of before] read_rows_ok[OF o, of "[line]"] read_rows_ok[OF o, of after]
  obtain a b c where
    "read_rows self before = Inr a" "read_rows self [line] = Inr b" "read_rows self after = Inr c"
    by blast
  moreover from this have "read_rows self ([line] @ after) = Inr (b @ c)"
    by (simp only: read_rows_append sum.case)
  ultimately have "\<exists>a b c. read_rows self before = Inr a \<and> read_rows self [line] = Inr b \<and>
            read_rows self after = Inr c \<and>
            read_rows self (before @ [line] @ after) = Inr (a @ b @ c)"
    by (simp only: read_rows_append[of self before] sum.case) blast
  with label_tags_texts read_sentence_tags[OF o] show ?thesis by blast
qed

theorem labelling_independent_of_other_records_witness:
  "map tok_text [\<lparr>tok_text = [98], tok_idx = Some 0\<rparr>, \<lparr>tok_text = [99], tok_idx = Some 1\<rparr>] =
     map tok_text [tok [98], tok [99]] \<and>
   set [[98, 99 :: nat]] = set [[98, 99], [98, 99]] \<and>
   label_tags [\<lparr>tok_text = [98], tok_idx = Some 0\<rparr>, \<lparr>tok_text = [99], tok_idx = Some 1\<rparr>] [[98, 99]] =
     label_tags [tok [98], tok [99]] [[98, 99], [98, 99]] \<and>
   map inst_tags (projr (read_rows example_reader ([example_row] @ [example_row] @ []))) =
     [[TagO, TagB, TagL, TagO], [TagO, TagB, TagL, TagO]]"
proof -
  have h: "map tok_text [\<lparr>tok_text = [98], tok_idx = Some 0\<rparr>, \<lparr>tok_text = [99], tok_idx = Some 1\<rparr>] =
     map tok_text [tok [98], tok [99]] \<and> set [[98, 99 :: nat]] = set [[98, 99], [98, 99]]"
    by (simp add: tok_def)
  note t = labelling_independent_of_other_records[OF example_init,
      of "[\<lparr>tok_text = [98], tok_idx = Some 0\<rparr>, \<lparr>tok_text = [99], tok_idx = Some 1\<rparr>]"
         "[tok [98], tok [99]]" "[[98, 99]]" "[[98, 99], [98, 99]]" "[]" "[]" "[]"
         "[example_row]" example_row "[]"]
  from t h have 1: "label_tags [\<lparr>tok_text = [98], tok_idx = Some 0\<rparr>, \<lparr>tok_text = [99], tok_idx = Some 1\<rparr>] [[98, 99]] =
     label_tags [tok [98], tok [99]] [[98, 99], [98, 99]]"
    by blast
  from t obtain a b c where abc: "read_rows example_reader [example_row] = Inr a"
    "read_rows example_reader [example_row] = Inr b" "read_rows example_reader [] = Inr c"
    "read_rows example_reader ([example_row] @ [example_row] @ []) = Inr (a @ b @ c)"
    by blast
  then have "c = []" by (simp add: read_rows_def)
  with abc example_row_tags
  have "map inst_tags (projr (read_rows example_reader ([example_row] @ [example_row] @ []))) =
     [[TagO, TagB, TagL, TagO], [TagO, TagB, TagL, TagO]]"
    by simp
  with h 1 show ?thesis by blast
qed

text \<open>
  Claim C10. Recoding a sequence of \<open>O\<close>, \<open>B\<close>, \<open>I\<close> to BIOUL keeps the span
  boundaries: the spans read off the BIOUL sequence, and the spans of the sequence
  converted back, are the spans of the original; where every span of the original
  starts with \<open>B\<close>, converting back gives the original itself. Every tag sequence of the
  labelling loop is of this kind, so its round trip is the identity.
\<close>

theorem bioul_round_trip:
  "(set tags \<subseteq> {TagO, TagB, TagI} \<longrightarrow>
      (\<exists>r. to_bioul tags (of_ascii ''IOB1'') = Inr r \<and>
           bioul_spans r = iob1_spans tags \<and>
           iob1_spans (from_bioul r) = iob1_spans tags \<and>
           (wf_iob tags \<longrightarrow> from_bioul r = tags))) \<and>
   (\<exists>tags r. label_tags tokens refs = Inr tags \<and> wf_iob tags \<and>
      to_bioul tags (of_ascii ''IOB1'') = Inr r \<and>
      bioul_spans r = iob1_spans tags \<and> from_bioul r = tags)"
proof -
  have 1: "\<exists>r. to_bioul ts (of_ascii ''IOB1'') = Inr r \<and>
           bioul_spans r = iob1_spans ts \<and>
           iob1_spans (from_bioul r) = iob1_spans ts \<and>
           (wf_iob ts \<longrightarrow> from_bioul r = ts)"
    if obi: "set ts \<subseteq> {TagO, TagB, TagI}" for ts
  proof -
    from to_bioul_spans[OF obi] obtain r where
      r: "to_bioul ts (of_ascii ''IOB1'') = Inr r" "bioul_spans r = iob1_spans ts"
      "from_bioul r = to_bio False ts" by blast
    have "iob1_spans (from_bioul r) = iob1_spans ts"
      unfolding r(3) iob1_spans_def using iob1_scan_to_bio[OF obi, of 0 None] by simp
    moreover have "wf_iob ts \<longrightarrow> from_bioul r = ts"
      unfolding r(3) wf_iob_def using to_bio_wf[of False ts] by simp
    ultimately show ?thesis using r by blast
  qed
  from label_tags_closed[of tokens refs] obtain tags where
    t: "label_tags tokens refs = Inr tags" by blast
  from 1[OF label_tags_obi[OF t]] label_tags_wf_iob[OF t] t
  have "\<exists>tags r. label_tags tokens refs = Inr tags \<and> wf_iob tags \<and>
      to_bioul tags (of_ascii ''IOB1'') = Inr r \<and>
      bioul_spans r = iob1_spans tags \<and> from_bioul r = tags"
    by blast
  with 1 show ?thesis by blast
qed

theorem bioul_round_trip_witness:
  "set [TagO, TagB, TagI, TagI, TagO, TagB] \<subseteq> {TagO, TagB, TagI} \<and>
   wf_iob [TagO, TagB, TagI, TagI, TagO, TagB] \<and>
   to_bioul [TagO, TagB, TagI, TagI, TagO, TagB] (of_ascii ''IOB1'') =
     Inr [TagO, TagB, TagI, TagL, TagO, TagU] \<and>
   bioul_spans [TagO, TagB, TagI, TagL, TagO, TagU] = [(1, 4), (5, 6)] \<and>
   iob1_spans [TagO, TagB, TagI, TagI, TagO, TagB] = [(1, 4), (5, 6)] \<and>
   from_bioul [TagO, TagB, TagI, TagL, TagO, TagU] = [TagO, TagB, TagI, TagI, TagO, TagB]"
proof -
  have h: "set [TagO, TagB, TagI, TagI, TagO, TagB] \<subseteq> {TagO, TagB, TagI}" by simp
  have w: "wf_iob [TagO, TagB, TagI, TagI, TagO, TagB]" by (simp add: wf_iob_def)
  have e: "to_bioul [TagO, TagB, TagI, TagI, TagO, TagB] (of_ascii ''IOB1'') =
     Inr [TagO, TagB, TagI, TagL, TagO, TagU]" by code_simp
  have s: "iob1_spans [TagO, TagB, TagI, TagI, TagO, TagB] = [(1, 4), (5, 6)]"
    by (simp add: iob1_spans_def close_span_def)
  from bioul_round_trip[of "[TagO, TagB, TagI, TagI, TagO, TagB]" "[]" "[]"] h w e
  have "bioul_spans [TagO, TagB, TagI, TagL, TagO, TagU] =
          iob1_spans [TagO, TagB, TagI, TagI, TagO, TagB] \<and>
        from_bioul [TagO, TagB, TagI, TagL, TagO, TagU] = [TagO, TagB, TagI, TagI, TagO, TagB]"
    by auto
  with h w e s show ?thesis by simp
qed

end
